theory Spec2Isabelle
  imports Complex_Main "HOL-Library.Word" "HOL-Library.Log_Nat"
begin

section \<open>The scene model of \<open>src/mvs/model.cc\<close>\<close>

text \<open>
  The file embeds \<open>colmap::mvs::Model\<close>: the two readers, the name and index lookups,
  \<open>ComputeDepthRanges\<close> and \<open>ComputeSharedPoints\<close>.

  Conventions of the embedding.
  \<^item> A C++ \<open>int\<close> is a \<open>32 word\<close> read with \<open>sint\<close>; a \<open>size_t\<close> is a \<open>nat\<close>
    (container sizes), and the conversion of an \<open>int\<close> to \<open>size_t\<close>, which C++ applies
    at \<open>vector::at\<close>, at \<open>operator[]\<close> and inside \<open>CHECK_LT(int, size_t)\<close>, is written out
    as \<open>size_of_int\<close>.
  \<^item> Every \<open>CHECK\<close>, \<open>LOG(FATAL)\<close> and thrown exception is a value \<open>Inl e\<close> of the result
    type \<open>error + 'a\<close>; a run that ends normally is \<open>Inr\<close>.
  \<^item> The counters of the co-visibility maps are C++ \<open>int\<close>s, so \<open>32 word\<close>s too. They
    only ever grow by one from zero, and incrementing a counter that holds \<open>INT_MAX\<close> is
    undefined behaviour in C++: the model ends there with \<open>Inl UndefinedBehaviour\<close>.
\<close>

subsection \<open>Errors\<close>

datatype error =
  InvalidFormat        \<comment> \<open>\<open>LOG(FATAL) << "Invalid input format"\<close>\<close>
  | CheckFailed        \<comment> \<open>a failed \<open>CHECK\<close>, \<open>CHECK_EQ\<close>, \<open>CHECK_LT\<close>, \<open>CHECK_GT\<close>, \<open>CHECK_GE\<close>\<close>
  | OutOfRange         \<comment> \<open>\<open>std::out_of_range\<close> from \<open>at\<close>\<close>
  | LengthError        \<comment> \<open>\<open>std::length_error\<close> from \<open>reserve\<close> or \<open>resize\<close>\<close>
  | UndefinedBehaviour \<comment> \<open>an unchecked \<open>operator[]\<close> outside the vector, an unrepresentable
                           conversion, or a signed overflow\<close>

subsection \<open>Single-precision values\<close>

text \<open>
  A \<open>float\<close> is an IEEE-754 binary32 value: a finite value is carried by the rational
  number it denotes, next to the two infinities and NaN. The two zeros are one value
  \<open>Fin 0\<close>: they compare equal in C++ and no operation of this file tells them apart.
\<close>

datatype f32 = Fin rat | PInf | NInf | NaN

type_synonym cint = "32 word"

text \<open>
  Arithmetic is that of IEEE-754 with the default rounding (to nearest, ties to even),
  every operation rounded once to binary32: the exact rational result is rounded by
  \<open>rnd\<close>. \<open>ilog2 v\<close> is the exponent of the binade of a positive \<open>v\<close>, \<open>ulp v\<close> the
  spacing of the binary32 values there (\<open>2^-149\<close> throughout the subnormal range), and a
  rounded magnitude of \<open>2^128\<close> or more overflows to an infinity.
\<close>

definition ilog2 :: "rat \<Rightarrow> int" where
  "ilog2 v = (case quotient_of v of (p, q) \<Rightarrow>
      let d = bitlen p - bitlen q in if 2 powi d \<le> v then d else d - 1)"

definition round_half_even :: "rat \<Rightarrow> int" where
  "round_half_even q =
     (let f = \<lfloor>q\<rfloor>; r = q - of_int f
      in if r < 1 / 2 then f else if 1 / 2 < r then f + 1 else if even f then f else f + 1)"

definition ulp :: "rat \<Rightarrow> rat" where
  "ulp v = 2 powi (max (ilog2 \<bar>v\<bar>) (- 126) - 23)"

definition rnd :: "rat \<Rightarrow> f32" where
  "rnd v =
     (if v = 0 then Fin 0
      else let u = ulp v; r = of_int (round_half_even (v / u)) * u
           in if 2 ^ 128 \<le> \<bar>r\<bar> then (if 0 < v then PInf else NInf) else Fin r)"

definition rnd_val :: "rat \<Rightarrow> rat" where
  \<comment> \<open>the rounded value before the overflow test\<close>
  "rnd_val v = of_int (round_half_even (v / ulp v)) * ulp v"

fun fneg :: "f32 \<Rightarrow> f32" where
  "fneg (Fin v) = Fin (- v)"
| "fneg PInf = NInf"
| "fneg NInf = PInf"
| "fneg NaN = NaN"

fun fmul :: "f32 \<Rightarrow> f32 \<Rightarrow> f32" where
  "fmul (Fin a) (Fin b) = rnd (a * b)"
| "fmul NaN _ = NaN"
| "fmul _ NaN = NaN"
| "fmul (Fin a) b = (if a = 0 then NaN else if 0 < a then b else fneg b)"
| "fmul a (Fin b) = (if b = 0 then NaN else if 0 < b then a else fneg a)"
| "fmul PInf b = b"
| "fmul NInf b = fneg b"

fun fadd :: "f32 \<Rightarrow> f32 \<Rightarrow> f32" where
  "fadd (Fin a) (Fin b) = rnd (a + b)"
| "fadd NaN _ = NaN"
| "fadd _ NaN = NaN"
| "fadd PInf NInf = NaN"
| "fadd NInf PInf = NaN"
| "fadd (Fin a) b = b"
| "fadd a _ = a"

definition fsub :: "f32 \<Rightarrow> f32 \<Rightarrow> f32" where
  "fsub a b = fadd a (fneg b)"

text \<open>
  Division is used once, by the literal \<open>2.0f\<close>; a zero divisor is taken as the
  positive zero.
\<close>

fun fdiv :: "f32 \<Rightarrow> f32 \<Rightarrow> f32" where
  "fdiv (Fin a) (Fin b) =
     (if b = 0 then (if a = 0 then NaN else if 0 < a then PInf else NInf) else rnd (a / b))"
| "fdiv NaN _ = NaN"
| "fdiv _ NaN = NaN"
| "fdiv (Fin a) _ = Fin 0"
| "fdiv a (Fin b) = (if 0 \<le> b then a else fneg a)"
| "fdiv _ _ = NaN"

fun fless :: "f32 \<Rightarrow> f32 \<Rightarrow> bool" where
  "fless (Fin a) (Fin b) = (a < b)"
| "fless NaN _ = False"
| "fless _ NaN = False"
| "fless _ NInf = False"
| "fless PInf _ = False"
| "fless _ _ = True"

fun feq :: "f32 \<Rightarrow> f32 \<Rightarrow> bool" where
  "feq NaN _ = False"
| "feq _ NaN = False"
| "feq a b = (a = b)"

definition float_of_int :: "cint \<Rightarrow> f32" where
  "float_of_int i = rnd (of_int (sint i))"

definition float_of_size :: "nat \<Rightarrow> f32" where
  "float_of_size n = rnd (of_nat n)"

definition size_of_float :: "f32 \<Rightarrow> nat option" where
  \<comment> \<open>the conversion to \<open>size_t\<close> truncates; it is undefined when the truncated value is
      not a \<open>size_t\<close>\<close>
  "size_of_float v =
     (case v of
        Fin r \<Rightarrow> if - 1 < r \<and> r < 2 ^ 64 then Some (nat \<lfloor>r\<rfloor>) else None
      | _ \<Rightarrow> None)"

subsection \<open>Data\<close>

record Point =
  x :: f32
  y :: f32
  z :: f32
  track :: "cint list"

text \<open>
  \<open>mvs::Image\<close> is declared outside this file, which builds it from a path and the arrays
  \<open>K\<close>, \<open>R\<close> (nine row-major entries each) and \<open>T\<close> (three components) and reads it
  through \<open>GetR()\<close> and \<open>GetT()\<close>; the fields carry the accessors' names.
\<close>

record Image =
  GetPath :: string
  GetK :: "f32 list"
  GetR :: "f32 list"
  GetT :: "f32 list"

text \<open>
  The three slot vectors hold values of types declared outside this file; only their sizes
  are set here, so a slot is a unit. The members \<open>image_names_\<close> and
  \<open>image_name_to_id_\<close> lose the final underscore, which a name cannot end with here.
\<close>

record Model =
  images :: "Image list"
  points :: "Point list"
  image_names :: "string list"
  image_name_to_id :: "string \<rightharpoonup> cint"
  depth_maps :: "unit list"
  normal_maps :: "unit list"
  consistency_graph :: "unit list"

definition size_of_int :: "cint \<Rightarrow> nat" where
  \<comment> \<open>the conversion \<open>int\<close> to the 64-bit \<open>size_t\<close>: the value modulo \<open>2^64\<close>\<close>
  "size_of_int i = nat (sint i mod 2 ^ 64)"

definition vec_at :: "'a list \<Rightarrow> cint \<Rightarrow> error + 'a" where
  \<comment> \<open>\<open>v.at(i)\<close> with an \<open>int\<close> argument\<close>
  "vec_at v i = (if size_of_int i < length v then Inr (v ! size_of_int i) else Inl OutOfRange)"

subsection \<open>\<open>Model::ComputeSharedPoints\<close>\<close>

type_synonym shared = "(cint \<rightharpoonup> cint) list"

definition map_incr :: "(cint \<rightharpoonup> cint) \<Rightarrow> cint \<Rightarrow> error + (cint \<rightharpoonup> cint)" where
  \<comment> \<open>\<open>m[k] += 1\<close> on a \<open>std::map<int, int>\<close>: a missing key is inserted with 0 first;
      adding one to \<open>INT_MAX = 2147483647\<close> overflows\<close>
  "map_incr m k =
     (let c = (case m k of None \<Rightarrow> 0 | Some c \<Rightarrow> c)
      in if c = 2147483647 then Inl UndefinedBehaviour else Inr (m(k \<mapsto> c + 1)))"

definition bump :: "shared \<Rightarrow> cint \<Rightarrow> cint \<Rightarrow> error + shared" where
  \<comment> \<open>\<open>shared_points.at(a)[b] += 1\<close>\<close>
  "bump sp a b =
     (if size_of_int a < length sp
      then (case map_incr (sp ! size_of_int a) b of
              Inl e \<Rightarrow> Inl e
            | Inr entry \<Rightarrow> Inr (sp[size_of_int a := entry]))
      else Inl OutOfRange)"

text \<open>The loop over \<open>j < i\<close>: the second argument is \<open>track[i]\<close>, the list is \<open>track[0..i)\<close>.\<close>

fun shared_inner :: "shared \<Rightarrow> cint \<Rightarrow> cint list \<Rightarrow> error + shared" where
  "shared_inner sp image_id1 [] = Inr sp"
| "shared_inner sp image_id1 (image_id2 # rest) =
     (if image_id1 \<noteq> image_id2
      then (case bump sp image_id1 image_id2 of
              Inl e \<Rightarrow> Inl e
            | Inr sp1 \<Rightarrow>
                (case bump sp1 image_id2 image_id1 of
                   Inl e \<Rightarrow> Inl e
                 | Inr sp2 \<Rightarrow> shared_inner sp2 image_id1 rest))
      else shared_inner sp image_id1 rest)"

text \<open>The loop over \<open>i\<close>: \<open>seen\<close> is \<open>track[0..i)\<close>, the list is \<open>track[i..)\<close>.\<close>

fun shared_track :: "shared \<Rightarrow> cint list \<Rightarrow> cint list \<Rightarrow> error + shared" where
  "shared_track sp seen [] = Inr sp"
| "shared_track sp seen (image_id1 # rest) =
     (case shared_inner sp image_id1 seen of
        Inl e \<Rightarrow> Inl e
      | Inr sp' \<Rightarrow> shared_track sp' (seen @ [image_id1]) rest)"

fun shared_points_loop :: "shared \<Rightarrow> Point list \<Rightarrow> error + shared" where
  "shared_points_loop sp [] = Inr sp"
| "shared_points_loop sp (point # rest) =
     (case shared_track sp [] (track point) of
        Inl e \<Rightarrow> Inl e
      | Inr sp' \<Rightarrow> shared_points_loop sp' rest)"

definition ComputeSharedPoints :: "Model \<Rightarrow> error + shared" where
  "ComputeSharedPoints m =
     shared_points_loop (replicate (length (images m)) Map.empty) (points m)"


subsection \<open>Loops that stop at the first failure\<close>

fun for_each :: "('s \<Rightarrow> 'a \<Rightarrow> error + 's) \<Rightarrow> 's \<Rightarrow> 'a list \<Rightarrow> error + 's" where
  "for_each body s [] = Inr s"
| "for_each body s (v # vs) =
     (case body s v of Inl e \<Rightarrow> Inl e | Inr s' \<Rightarrow> for_each body s' vs)"

fun map_err :: "('a \<Rightarrow> error + 'b) \<Rightarrow> 'a list \<Rightarrow> error + 'b list" where
  "map_err f [] = Inr []"
| "map_err f (v # vs) =
     (case f v of
        Inl e \<Rightarrow> Inl e
      | Inr w \<Rightarrow> (case map_err f vs of Inl e \<Rightarrow> Inl e | Inr ws \<Rightarrow> Inr (w # ws)))"

definition resize :: "'a \<Rightarrow> 'a list \<Rightarrow> nat \<Rightarrow> 'a list" where
  \<comment> \<open>\<open>v.resize(n)\<close>, the first argument being the value-initialised element\<close>
  "resize d v n = take n v @ replicate (n - length v) d"

definition emplace :: "('k \<rightharpoonup> 'v) \<Rightarrow> 'k \<Rightarrow> 'v \<Rightarrow> ('k \<rightharpoonup> 'v)" where
  \<comment> \<open>\<open>unordered_map::emplace\<close> keeps the entry of a key that is already there\<close>
  "emplace m k v = (case m k of None \<Rightarrow> m(k \<mapsto> v) | Some _ \<Rightarrow> m)"

subsection \<open>Names and paths\<close>

fun digits10 :: "nat \<Rightarrow> string" where
  "digits10 n =
     (if n < 10 then [char_of (48 + n)] else digits10 (n div 10) @ [char_of (48 + n mod 10)])"

declare digits10.simps [simp del]

definition pad0 :: "nat \<Rightarrow> string \<Rightarrow> string" where
  "pad0 w s = replicate (w - length s) (CHR ''0'') @ s"

definition StringPrintf_08d_jpg :: "cint \<Rightarrow> string" where
  \<comment> \<open>\<open>StringPrintf("%08d.jpg", image_id)\<close>: decimal, padded with zeros to eight characters\<close>
  "StringPrintf_08d_jpg image_id =
     (if sint image_id < 0
      then CHR ''-'' # pad0 7 (digits10 (nat (- sint image_id)))
      else pad0 8 (digits10 (nat (sint image_id)))) @ ''.jpg''"

fun JoinPaths :: "string list \<Rightarrow> string" where
  \<comment> \<open>Modelled from the spec: \<open>JoinPaths\<close> of util/misc.h is not in the source; the spec
      writes the joined paths as \<open><dir>/visualize/<name>\<close> and \<open><dir>/images/<name>\<close>.\<close>
  "JoinPaths [] = []"
| "JoinPaths [p] = p"
| "JoinPaths (p # ps) = p @ ''/'' @ JoinPaths ps"

subsection \<open>\<open>Model::GetImageId\<close> and \<open>Model::GetImageName\<close>\<close>

definition GetImageId :: "Model \<Rightarrow> string \<Rightarrow> error + cint" where
  "GetImageId m name =
     (case image_name_to_id m name of None \<Rightarrow> Inl CheckFailed | Some i \<Rightarrow> Inr i)"

definition GetImageName :: "Model \<Rightarrow> cint \<Rightarrow> error + string" where
  "GetImageName m image_id =
     (if \<not> 0 \<le> sint image_id then Inl CheckFailed
      else if \<not> size_of_int image_id < length (image_names m) then Inl CheckFailed
      else vec_at (image_names m) image_id)"

subsection \<open>What the readers take from outside\<close>

text \<open>
  The sparse reconstruction of base/reconstruction.h, the bitmap reader and the file
  system are not part of this file. A reconstruction is given by what the reader asks of
  it: the registered image ids in order, the images and cameras by id (a missing id
  throws, as \<open>at\<close> does), and the 3D points in the order of iteration. The matrices and
  vectors are held as the reader stores them, after the conversion to \<open>float\<close>.
\<close>

type_synonym image_t = "32 word"
type_synonym camera_t = "32 word"
type_synonym point3D_t = "64 word"

record Camera =
  ModelId :: cint
  CalibrationMatrix :: "f32 list"

record RegImage =
  CameraId :: camera_t
  Name :: string
  RotationMatrix :: "f32 list"   \<comment> \<open>\<open>QuaternionToRotationMatrix(image.Qvec()).cast<float>()\<close>\<close>
  Tvec :: "f32 list"

record TrackElement =
  image_id :: image_t
  point2D_idx :: "32 word"

record Point3D =
  X :: f32
  Y :: f32
  Z :: f32
  Elements :: "TrackElement list"

record Reconstruction =
  RegImageIds :: "image_t list"
  Images :: "image_t \<rightharpoonup> RegImage"
  Cameras :: "camera_t \<rightharpoonup> Camera"
  Points3D :: "(point3D_t \<times> Point3D) list"

text \<open>
  The bundle file is given by the values its extractions yield: the stream is never
  tested, so every \<open>file >> v\<close> leaves some value in \<open>v\<close> and the reader goes on. A block
  is indexed by the position of the loop that reads it.
\<close>

record BundleImage =
  focal :: f32
  k1 :: f32
  k2 :: f32
  rot_in :: "nat \<Rightarrow> f32"      \<comment> \<open>the nine values read into \<open>R\<close>\<close>
  trans_in :: "nat \<Rightarrow> f32"    \<comment> \<open>the three values read into \<open>T\<close>\<close>

record BundleTrackEl =
  image_idx :: cint
  feature_idx :: cint
  imx :: f32
  imy :: f32

record BundlePoint =
  coord :: "nat \<Rightarrow> f32"    \<comment> \<open>the three values read into \<open>point.x\<close>, \<open>point.y\<close>, \<open>point.z\<close>\<close>
  color :: "nat \<Rightarrow> cint"
  track_len :: cint
  track_el :: "nat \<Rightarrow> BundleTrackEl"

record Bundle =
  header :: string
  num_images :: cint
  num_points :: cint
  image_block :: "nat \<Rightarrow> BundleImage"
  point_block :: "nat \<Rightarrow> BundlePoint"

record Env =
  reconstruction_Read :: "string \<Rightarrow> error + Reconstruction"
  PinholeCameraModel_model_id :: cint
  file_open :: "string \<Rightarrow> Bundle option"
  bitmap_Read :: "string \<Rightarrow> (cint \<times> cint) option"   \<comment> \<open>width and height\<close>

subsection \<open>\<open>Model::ReadFromCOLMAP\<close>\<close>

definition colmap_image ::
  "Env \<Rightarrow> string \<Rightarrow> Reconstruction \<Rightarrow> Model \<times> (image_t \<rightharpoonup> nat) \<Rightarrow> nat \<Rightarrow>
   error + Model \<times> (image_t \<rightharpoonup> nat)" where
  "colmap_image env dir reconstruction st i =
     (case st of (m, image_id_map) \<Rightarrow>
      let iid = RegImageIds reconstruction ! i in
      case Images reconstruction iid of
        None \<Rightarrow> Inl OutOfRange
      | Some img \<Rightarrow>
          (case Cameras reconstruction (CameraId img) of
             None \<Rightarrow> Inl OutOfRange
           | Some camera \<Rightarrow>
               if ModelId camera \<noteq> PinholeCameraModel_model_id env then Inl CheckFailed
               else Inr
                 (m\<lparr>images := images m @
                       [\<lparr>GetPath = JoinPaths [dir, ''images'', Name img],
                         GetK = CalibrationMatrix camera,
                         GetR = RotationMatrix img,
                         GetT = Tvec img\<rparr>],
                     image_names := image_names m @ [Name img],
                     image_name_to_id := emplace (image_name_to_id m) (Name img) (of_nat i)\<rparr>,
                  emplace image_id_map iid i)))"

definition colmap_point ::
  "(image_t \<rightharpoonup> nat) \<Rightarrow> Model \<Rightarrow> point3D_t \<times> Point3D \<Rightarrow> error + Model" where
  "colmap_point image_id_map m point3D =
     (case map_err
             (\<lambda>track_el. case image_id_map (image_id track_el) of
                            None \<Rightarrow> Inl OutOfRange
                          | Some i \<Rightarrow> Inr (of_nat i :: cint))
             (Elements (snd point3D)) of
        Inl e \<Rightarrow> Inl e
      | Inr tr \<Rightarrow>
          Inr (m\<lparr>points := points m @
                 [\<lparr>x = X (snd point3D), y = Y (snd point3D), z = Z (snd point3D), track = tr\<rparr>]\<rparr>))"

definition resize_slots :: "Model \<Rightarrow> Model" where
  "resize_slots m =
     m\<lparr>depth_maps := resize () (depth_maps m) (length (images m)),
       normal_maps := resize () (normal_maps m) (length (images m)),
       consistency_graph := resize () (consistency_graph m) (length (images m))\<rparr>"

definition ReadFromCOLMAP :: "Env \<Rightarrow> string \<Rightarrow> Model \<Rightarrow> error + Model" where
  "ReadFromCOLMAP env dir m =
     (case reconstruction_Read env (JoinPaths [dir, ''sparse'']) of
        Inl e \<Rightarrow> Inl e
      | Inr reconstruction \<Rightarrow>
          (case for_each (colmap_image env dir reconstruction) (m, Map.empty)
                  [0..<length (RegImageIds reconstruction)] of
             Inl e \<Rightarrow> Inl e
           | Inr (m1, image_id_map) \<Rightarrow>
               (case for_each (colmap_point image_id_map) m1 (Points3D reconstruction) of
                  Inl e \<Rightarrow> Inl e
                | Inr m2 \<Rightarrow> Inr (resize_slots m2))))"

subsection \<open>\<open>Model::ReadFromPMVS\<close>\<close>

definition pmvs_image :: "Env \<Rightarrow> string \<Rightarrow> Bundle \<Rightarrow> Model \<Rightarrow> nat \<Rightarrow> error + Model" where
  "pmvs_image env dir file m i =
     (let iid = (of_nat i :: cint);
          image_name = StringPrintf_08d_jpg iid;
          image_path = JoinPaths [dir, ''visualize'', image_name];
          blk = image_block file i
      in case bitmap_Read env image_path of
           None \<Rightarrow> Inl CheckFailed
         | Some (width, height) \<Rightarrow>
             if \<not> feq (k1 blk) (Fin 0) then Inl CheckFailed
             else if \<not> feq (k2 blk) (Fin 0) then Inl CheckFailed
             else Inr
               (m\<lparr>images := images m @
                     [\<lparr>GetPath = image_path,
                       GetK = [focal blk, Fin 0, fdiv (float_of_int width) (Fin 2),
                               Fin 0, focal blk, fdiv (float_of_int height) (Fin 2),
                               Fin 0, Fin 0, Fin 1],
                       GetR = map (\<lambda>j. if 3 \<le> j then fneg (rot_in blk j) else rot_in blk j) [0..<9],
                       GetT = [trans_in blk 0, fneg (trans_in blk 1), fneg (trans_in blk 2)]\<rparr>],
                   image_names := image_names m @ [image_name],
                   image_name_to_id := emplace (image_name_to_id m) image_name iid\<rparr>))"

definition pmvs_track_el :: "nat \<Rightarrow> BundlePoint \<Rightarrow> cint list \<Rightarrow> nat \<Rightarrow> error + cint list" where
  \<comment> \<open>one turn of the loop over the track: the first argument is \<open>images.size()\<close>\<close>
  "pmvs_track_el images_size blk tr i =
     (let tr' = tr[i := image_idx (track_el blk i)]
      in if size_of_int (tr' ! i) < images_size then Inr tr' else Inl CheckFailed)"

definition pmvs_point :: "Bundle \<Rightarrow> Model \<Rightarrow> nat \<Rightarrow> error + Model" where
  "pmvs_point file m point_id =
     (let blk = point_block file point_id; point = points m ! point_id
      in if sint (track_len blk) < 0 then Inl LengthError
         else case for_each (pmvs_track_el (length (images m)) blk)
                     (resize 0 (track point) (nat (sint (track_len blk))))
                     [0..<nat (sint (track_len blk))] of
                Inl e \<Rightarrow> Inl e
              | Inr tr \<Rightarrow>
                  Inr (m\<lparr>points := (points m)
                         [point_id := \<lparr>x = coord blk 0, y = coord blk 1, z = coord blk 2,
                                       track = tr\<rparr>]\<rparr>))"

definition ReadFromPMVS :: "Env \<Rightarrow> string \<Rightarrow> Model \<Rightarrow> error + Model" where
  "ReadFromPMVS env dir m =
     (case file_open env (JoinPaths [dir, ''bundle.rd.out'']) of
        None \<Rightarrow> Inl CheckFailed
      | Some file \<Rightarrow>
          if sint (num_images file) < 0 then Inl LengthError
          else case for_each (pmvs_image env dir file) m [0..<nat (sint (num_images file))] of
                 Inl e \<Rightarrow> Inl e
               | Inr m1 \<Rightarrow>
                   if sint (num_points file) < 0 then Inl LengthError
                   else case for_each (pmvs_point file)
                               (m1\<lparr>points :=
                                     resize \<lparr>x = Fin 0, y = Fin 0, z = Fin 0, track = []\<rparr>
                                       (points m1) (nat (sint (num_points file)))\<rparr>)
                               [0..<nat (sint (num_points file))] of
                          Inl e \<Rightarrow> Inl e
                        | Inr m2 \<Rightarrow> Inr (resize_slots m2))"

subsection \<open>\<open>Model::Read\<close>\<close>

definition Read :: "Env \<Rightarrow> string \<Rightarrow> string \<Rightarrow> Model \<Rightarrow> error + Model" where
  "Read env dir format m =
     (if format = ''COLMAP'' then ReadFromCOLMAP env dir m
      else if format = ''PMVS'' then ReadFromPMVS env dir m
      else Inl InvalidFormat)"

definition empty_Model :: Model where
  "empty_Model =
     \<lparr>images = [], points = [], image_names = [], image_name_to_id = Map.empty,
      depth_maps = [], normal_maps = [], consistency_graph = []\<rparr>"


subsection \<open>\<open>Model::ComputeDepthRanges\<close>\<close>

text \<open>
  \<open>dot\<close> belongs to the Eigen library, which is outside this file. For two vectors of
  three \<open>float\<close>s it multiplies the coefficients and sums the products by a reduction
  unrolled in halves: the first product is added to the sum of the other two. Each
  product and each sum is rounded once.
\<close>

definition dot :: "f32 \<times> f32 \<times> f32 \<Rightarrow> f32 \<times> f32 \<times> f32 \<Rightarrow> f32" where
  "dot a b =
     (case a of (a0, a1, a2) \<Rightarrow> case b of (b0, b1, b2) \<Rightarrow>
        fadd (fmul a0 b0) (fadd (fmul a1 b1) (fmul a2 b2)))"

definition point_depth :: "Image \<Rightarrow> Point \<Rightarrow> f32" where
  "point_depth img point =
     fadd (dot (GetR img ! 6, GetR img ! 7, GetR img ! 8) (x point, y point, z point))
          (GetT img ! 2)"

definition depth_track_el ::
  "Model \<Rightarrow> Point \<Rightarrow> f32 list list \<Rightarrow> cint \<Rightarrow> error + f32 list list" where
  "depth_track_el m point depths iid =
     (case vec_at (images m) iid of
        Inl e \<Rightarrow> Inl e
      | Inr img \<Rightarrow>
          let depth = point_depth img point
          in if fless (Fin 0) depth
             then Inr (depths[size_of_int iid := depths ! size_of_int iid @ [depth]])
             else Inr depths)"

definition depth_point :: "Model \<Rightarrow> f32 list list \<Rightarrow> Point \<Rightarrow> error + f32 list list" where
  "depth_point m depths point = for_each (depth_track_el m point) depths (track point)"

definition collect_depths :: "Model \<Rightarrow> error + f32 list list" where
  "collect_depths m = for_each (depth_point m) (replicate (length (images m)) []) (points m)"

text \<open>
  \<open>std::sort\<close> with \<open>operator<\<close>: the samples are never NaN, so the order is total and the
  sorted sequence is the same whatever the algorithm; insertion is used here.
\<close>

fun insort_f32 :: "f32 \<Rightarrow> f32 list \<Rightarrow> f32 list" where
  "insort_f32 v [] = [v]"
| "insort_f32 v (w # ws) = (if fless w v then w # insort_f32 v ws else v # w # ws)"

fun sort_f32 :: "f32 list \<Rightarrow> f32 list" where
  "sort_f32 [] = []"
| "sort_f32 (v # vs) = insort_f32 v (sort_f32 vs)"

definition kMinPercentile :: f32 where
  "kMinPercentile = rnd (1 / 100)"

definition kMaxPercentile :: f32 where
  "kMaxPercentile = rnd (99 / 100)"

definition kStretchRatio :: f32 where
  "kStretchRatio = rnd (25 / 100)"

definition percentile_index :: "nat \<Rightarrow> f32 \<Rightarrow> nat option" where
  \<comment> \<open>\<open>image_depths.size() * kPercentile\<close> used as an index\<close>
  "percentile_index n k = size_of_float (fmul (float_of_size n) k)"

definition depth_range :: "f32 list \<Rightarrow> error + f32 \<times> f32" where
  "depth_range image_depths =
     (if image_depths = [] then Inr (Fin (- 1), Fin (- 1))
      else let sorted_depths = sort_f32 image_depths; n = length sorted_depths
           in case percentile_index n kMinPercentile of
                None \<Rightarrow> Inl UndefinedBehaviour
              | Some i \<Rightarrow>
                  if \<not> i < n then Inl UndefinedBehaviour
                  else case percentile_index n kMaxPercentile of
                         None \<Rightarrow> Inl UndefinedBehaviour
                       | Some j \<Rightarrow>
                           if \<not> j < n then Inl UndefinedBehaviour
                           else Inr (fmul (sorted_depths ! i) (fsub (Fin 1) kStretchRatio),
                                     fmul (sorted_depths ! j) (fadd (Fin 1) kStretchRatio)))"

definition ComputeDepthRanges :: "Model \<Rightarrow> error + (f32 \<times> f32) list" where
  "ComputeDepthRanges m =
     (case collect_depths m of
        Inl e \<Rightarrow> Inl e
      | Inr depths \<Rightarrow> map_err depth_range depths)"

subsection \<open>Counting the increments of \<open>ComputeSharedPoints\<close>\<close>

text \<open>
  The number a map entry stands for (a missing entry for 0), and the entries the function
  produces: present entries hold a positive count.
\<close>

definition count_of :: "cint option \<Rightarrow> nat" where
  "count_of v = (case v of None \<Rightarrow> 0 | Some c \<Rightarrow> nat (sint c))"

definition positive :: "cint option \<Rightarrow> bool" where
  "positive v = (case v of None \<Rightarrow> True | Some c \<Rightarrow> 0 < sint c)"

definition inner_n :: "cint \<Rightarrow> cint list \<Rightarrow> cint \<Rightarrow> cint \<Rightarrow> nat" where
  "inner_n i seen a b =
     (if a \<noteq> b then (if a = i then count_list seen b else 0) + (if b = i then count_list seen a else 0)
      else 0)"

fun pairs_from :: "cint list \<Rightarrow> cint list \<Rightarrow> cint \<Rightarrow> cint \<Rightarrow> nat" where
  "pairs_from seen [] a b = 0"
| "pairs_from seen (i # rest) a b = inner_n i seen a b + pairs_from (seen @ [i]) rest a b"

definition pair_count :: "cint list \<Rightarrow> cint \<Rightarrow> cint \<Rightarrow> nat" where
  "pair_count t a b = (if a = b then 0 else count_list t a * count_list t b)"

definition unit_image :: Image where
  "unit_image =
     \<lparr>GetPath = [], GetK = [Fin 1, Fin 0, Fin 0, Fin 0, Fin 1, Fin 0, Fin 0, Fin 0, Fin 1],
      GetR = [Fin 1, Fin 0, Fin 0, Fin 0, Fin 1, Fin 0, Fin 0, Fin 0, Fin 1],
      GetT = [Fin 0, Fin 0, Fin 0]\<rparr>"

definition scene :: "nat \<Rightarrow> Point list \<Rightarrow> Model" where
  "scene n ps =
     \<lparr>images = replicate n unit_image, points = ps, image_names = [],
      image_name_to_id = Map.empty, depth_maps = [], normal_maps = [], consistency_graph = []\<rparr>"

definition origin_point :: "cint list \<Rightarrow> Point" where
  "origin_point t = \<lparr>x = Fin 0, y = Fin 0, z = Fin 0, track = t\<rparr>"

definition shared_total :: "Model \<Rightarrow> cint \<Rightarrow> cint \<Rightarrow> nat" where
  "shared_total m a b = (\<Sum>p\<leftarrow>points m. pair_count (track p) a b)"

definition observed_by_both :: "Model \<Rightarrow> cint \<Rightarrow> cint \<Rightarrow> nat" where
  "observed_by_both m a b = length (filter (\<lambda>p. a \<in> set (track p) \<and> b \<in> set (track p)) (points m))"

definition covis_example :: Model where
  "covis_example = scene 3 [origin_point [0, 1, 2]]"

definition duplicate_example :: Model where
  "duplicate_example = scene 2 [origin_point [0, 0, 1]]"

definition overflow_example :: Model where
  "overflow_example = scene 2 [origin_point (replicate 46341 0 @ replicate 46341 1)]"
subsection \<open>The samples of a frame\<close>

text \<open>
  The positive-depth sample list of the frame \<open>f\<close>: one depth for every track entry that
  names \<open>f\<close> and whose point has a depth above zero there, in the order of the points and
  of the track entries.
\<close>

definition sample_of :: "Model \<Rightarrow> nat \<Rightarrow> Point \<Rightarrow> cint \<Rightarrow> f32 list" where
  "sample_of m f point iid =
     (if size_of_int iid = f \<and> fless (Fin 0) (point_depth (images m ! f) point)
      then [point_depth (images m ! f) point] else [])"

definition frame_samples :: "Model \<Rightarrow> nat \<Rightarrow> f32 list" where
  "frame_samples m f =
     concat (map (\<lambda>point. concat (map (sample_of m f point) (track point))) (points m))"

definition valid_tracks :: "Model \<Rightarrow> bool" where
  "valid_tracks m =
     (\<forall>point\<in>set (points m). \<forall>iid\<in>set (track point). size_of_int iid < length (images m))"

definition depth_example :: Model where
  "depth_example = scene 2 [\<lparr>x = Fin 0, y = Fin 0, z = Fin 2, track = [0]\<rparr>]"

subsection \<open>Notions used to state the properties of the readers\<close>

text \<open>
  The axis flip in the words of the specification: a 3x3 row-major matrix with the rows of
  the given (0-based) numbers negated, a vector with the components of the given (0-based)
  numbers negated.
\<close>

definition spec_negate_rows :: "nat set \<Rightarrow> f32 list \<Rightarrow> f32 list" where
  "spec_negate_rows rows mat =
     map (\<lambda>j. if j div 3 \<in> rows then fneg (mat ! j) else mat ! j) [0..<length mat]"

definition spec_negate_components :: "nat set \<Rightarrow> f32 list \<Rightarrow> f32 list" where
  "spec_negate_components comps vec =
     map (\<lambda>j. if j \<in> comps then fneg (vec ! j) else vec ! j) [0..<length vec]"

text \<open>What one turn of the image loop of \<open>ReadFromPMVS\<close> stores for the image \<open>i\<close>.\<close>

definition pmvs_name :: "nat \<Rightarrow> string" where
  "pmvs_name i = StringPrintf_08d_jpg (of_nat i)"

definition pmvs_R :: "Bundle \<Rightarrow> nat \<Rightarrow> f32 list" where
  "pmvs_R file i =
     map (\<lambda>j. if 3 \<le> j then fneg (rot_in (image_block file i) j) else rot_in (image_block file i) j)
       [0..<9]"

definition pmvs_T :: "Bundle \<Rightarrow> nat \<Rightarrow> f32 list" where
  "pmvs_T file i = [trans_in (image_block file i) 0, fneg (trans_in (image_block file i) 1),
                    fneg (trans_in (image_block file i) 2)]"

definition pmvs_ids :: "Bundle \<Rightarrow> nat list" where
  "pmvs_ids file = [0..<nat (sint (num_images file))]"

definition emplace_all :: "('k \<rightharpoonup> 'v) \<Rightarrow> ('k \<times> 'v) list \<Rightarrow> ('k \<rightharpoonup> 'v)" where
  "emplace_all m kvs = foldl (\<lambda>mp kv. emplace mp (fst kv) (snd kv)) m kvs"

text \<open>
  A bundle with one image and no point. The image has the identity as rotation, the
  translation \<open>(1, 2, 3)\<close> and a 640 by 480 bitmap.
\<close>

definition identity_block :: BundleImage where
  "identity_block =
     \<lparr>focal = Fin 500, k1 = Fin 0, k2 = Fin 0,
      rot_in = (\<lambda>j. if j = 0 \<or> j = 4 \<or> j = 8 then Fin 1 else Fin 0),
      trans_in = (\<lambda>j. if j = 0 then Fin 1 else if j = 1 then Fin 2 else Fin 3)\<rparr>"

definition no_point :: BundlePoint where
  "no_point =
     \<lparr>coord = (\<lambda>j. Fin 0), color = (\<lambda>j. 0), track_len = 0,
      track_el = (\<lambda>j. \<lparr>image_idx = 0, feature_idx = 0, imx = Fin 0, imy = Fin 0\<rparr>)\<rparr>"

definition one_image_bundle :: "BundleImage \<Rightarrow> Bundle" where
  "one_image_bundle blk =
     \<lparr>header = ''# Bundle file v0.3'', num_images = 1, num_points = 0,
      image_block = (\<lambda>i. blk), point_block = (\<lambda>i. no_point)\<rparr>"

definition pmvs_env :: "Bundle \<Rightarrow> Env" where
  "pmvs_env file =
     \<lparr>reconstruction_Read = (\<lambda>p. Inl CheckFailed),
      PinholeCameraModel_model_id = 1,
      file_open = (\<lambda>p. if p = ''scene/bundle.rd.out'' then Some file else None),
      bitmap_Read = (\<lambda>p. if p = ''scene/visualize/00000000.jpg'' then Some (640, 480) else None)\<rparr>"

definition distorted_block :: BundleImage where
  "distorted_block = identity_block\<lparr>k1 := Fin (1 / 2)\<rparr>"

text \<open>The name of the \<open>i\<close>-th registered image of a reconstruction.\<close>

definition reg_name :: "Reconstruction \<Rightarrow> nat \<Rightarrow> string" where
  "reg_name reconstruction i =
     (case Images reconstruction (RegImageIds reconstruction ! i) of
        Some img \<Rightarrow> Name img
      | None \<Rightarrow> [])"

text \<open>Reading the decimal digits back, to tell the synthesized names apart.\<close>

definition decimal_value :: "string \<Rightarrow> nat" where
  "decimal_value s = foldl (\<lambda>a c. 10 * a + (of_char c - 48)) 0 s"

text \<open>A bundle with one image and one point whose track has the single entry \<open>idx\<close>.\<close>

definition track_point :: "cint \<Rightarrow> BundlePoint" where
  "track_point idx =
     \<lparr>coord = (\<lambda>j. Fin 0), color = (\<lambda>j. 0), track_len = 1,
      track_el = (\<lambda>j. \<lparr>image_idx = idx, feature_idx = 0, imx = Fin 0, imy = Fin 0\<rparr>)\<rparr>"

definition one_point_bundle :: "cint \<Rightarrow> Bundle" where
  "one_point_bundle idx =
     \<lparr>header = ''# Bundle file v0.3'', num_images = 1, num_points = 1,
      image_block = (\<lambda>i. identity_block), point_block = (\<lambda>i. track_point idx)\<rparr>"

text \<open>
  Reconstructions with two registered images, of the upstream ids 5 and 9, that share one
  pinhole camera: the first with two names and one point whose track has a single element
  of the given upstream id, the second with no point and one name for both images.
\<close>

definition pinhole_camera :: Camera where
  "pinhole_camera =
     \<lparr>ModelId = 1,
      CalibrationMatrix = [Fin 500, Fin 0, Fin 320, Fin 0, Fin 500, Fin 240, Fin 0, Fin 0, Fin 1]\<rparr>"

definition reg_image :: "string \<Rightarrow> RegImage" where
  "reg_image n =
     \<lparr>CameraId = 1, Name = n,
      RotationMatrix = [Fin 1, Fin 0, Fin 0, Fin 0, Fin 1, Fin 0, Fin 0, Fin 0, Fin 1],
      Tvec = [Fin 0, Fin 0, Fin 0]\<rparr>"

definition pair_reconstruction :: "image_t \<Rightarrow> Reconstruction" where
  "pair_reconstruction tid =
     \<lparr>RegImageIds = [5, 9],
      Images = [5 \<mapsto> reg_image ''a.jpg'', 9 \<mapsto> reg_image ''b.jpg''],
      Cameras = [1 \<mapsto> pinhole_camera],
      Points3D = [(1, \<lparr>X = Fin 0, Y = Fin 0, Z = Fin 1,
                        Elements = [\<lparr>image_id = tid, point2D_idx = 0\<rparr>]\<rparr>)]\<rparr>"

definition twin_reconstruction :: Reconstruction where
  "twin_reconstruction =
     \<lparr>RegImageIds = [5, 9],
      Images = [5 \<mapsto> reg_image ''a.jpg'', 9 \<mapsto> reg_image ''a.jpg''],
      Cameras = [1 \<mapsto> pinhole_camera],
      Points3D = []\<rparr>"

definition colmap_env :: "Reconstruction \<Rightarrow> Env" where
  "colmap_env reconstruction =
     \<lparr>reconstruction_Read = (\<lambda>p. if p = ''scene/sparse'' then Inr reconstruction else Inl CheckFailed),
      PinholeCameraModel_model_id = 1,
      file_open = (\<lambda>p. None),
      bitmap_Read = (\<lambda>p. None)\<rparr>"
section \<open>Co-visibility counts\<close>

lemma int_mod_2_64:
  fixes v :: int
  assumes "- (2 ^ 31) \<le> v" "v < 2 ^ 31"
  shows "v mod 2 ^ 64 = (if 0 \<le> v then v else v + 2 ^ 64)"
proof (cases "0 \<le> v")
  case True
  then show ?thesis using assms by (simp add: mod_pos_pos_trivial)
next
  case False
  have "(v + 2 ^ 64) mod 2 ^ 64 = v + 2 ^ 64"
    using assms False by (intro mod_pos_pos_trivial) simp_all
  then show ?thesis using False by simp
qed

lemma size_of_int_eq:
  "size_of_int a = (if 0 \<le> sint a then nat (sint a) else nat (sint a + 2 ^ 64))"
proof -
  have "- (2 ^ 31) \<le> sint a" "sint a < 2 ^ 31"
    using sint_ge [of a] sint_lt [of a] by simp_all
  from int_mod_2_64 [OF this]
  have "sint a mod 2 ^ 64 = (if 0 \<le> sint a then sint a else sint a + 2 ^ 64)" .
  then show ?thesis
    unfolding size_of_int_def by (simp only: if_distrib [of nat])
qed

lemma size_of_int_inj: "size_of_int a = size_of_int b \<Longrightarrow> a = b"
proof -
  assume h: "size_of_int a = size_of_int b"
  have ra: "- (2 ^ 31) \<le> sint a" "sint a < 2 ^ 31"
    using sint_ge [of a] sint_lt [of a] by simp_all
  have rb: "- (2 ^ 31) \<le> sint b" "sint b < 2 ^ 31"
    using sint_ge [of b] sint_lt [of b] by simp_all
  have "sint a = sint b"
    using h ra rb unfolding size_of_int_eq by (auto split: if_splits)
  then show ?thesis by (rule signed_word_eqI)
qed

lemma sint_succ:
  fixes c :: cint
  assumes "0 \<le> sint c" "c \<noteq> 2147483647"
  shows "sint (c + 1) = sint c + 1"
proof -
  have "sint c \<noteq> 2147483647"
  proof
    assume "sint c = 2147483647"
    then have "sint c = sint (2147483647 :: cint)" by simp
    then have "c = 2147483647" by (rule signed_word_eqI)
    then show False using assms(2) by simp
  qed
  moreover have "sint c < 2 ^ 31" using sint_lt [of c] by simp
  ultimately have b: "sint c + 1 < 2 ^ 31" by simp
  have "sint (c + 1) = signed_take_bit 31 (sint c + 1)"
    by (simp add: sint_word_add [of c 1])
  also have "\<dots> = sint c + 1"
    using assms(1) b by (intro signed_take_bit_int_eq_self) simp_all
  finally show ?thesis .
qed

lemma map_incr_entry:
  assumes "map_incr mp b = Inr mp'" "positive (mp b')"
  shows "positive (mp' b') \<and> count_of (mp' b') = count_of (mp b') + (if b' = b then 1 else 0)"
proof (cases "b' = b")
  case False
  then show ?thesis using assms by (auto simp: map_incr_def Let_def split: if_splits)
next
  case True
  define c where "c = (case mp b of None \<Rightarrow> 0 | Some c \<Rightarrow> c)"
  have ne: "c \<noteq> 2147483647" and mp': "mp' = mp(b \<mapsto> c + 1)"
    using assms(1) by (auto simp: map_incr_def Let_def c_def split: if_splits)
  have c0: "0 \<le> sint c" and cc: "count_of (mp b) = nat (sint c)"
    using assms(2) True by (auto simp: c_def positive_def count_of_def split: option.splits)
  have s: "sint (c + 1) = sint c + 1" using c0 ne by (rule sint_succ)
  show ?thesis using True mp' s c0 cc by (simp add: positive_def count_of_def nat_add_distrib)
qed

lemma bump_length: "bump sp a b = Inr sp' \<Longrightarrow> length sp' = length sp"
  by (auto simp: bump_def split: if_splits sum.splits)

lemma bump_entry:
  assumes "bump sp a b = Inr sp'" "size_of_int a' < length sp" "positive ((sp ! size_of_int a') b')"
  shows "positive ((sp' ! size_of_int a') b') \<and>
         count_of ((sp' ! size_of_int a') b') =
           count_of ((sp ! size_of_int a') b') + (if a' = a \<and> b' = b then 1 else 0)"
proof (cases "a' = a")
  case False
  then have "size_of_int a' \<noteq> size_of_int a" using size_of_int_inj by blast
  then show ?thesis using assms False
    by (auto simp: bump_def split: if_splits sum.splits)
next
  case True
  from assms(1) obtain entry where e: "map_incr (sp ! size_of_int a) b = Inr entry"
    and sp': "sp' = sp[size_of_int a := entry]"
    by (auto simp: bump_def split: if_splits sum.splits)
  have "(sp' ! size_of_int a') b' = entry b'" using sp' True assms(2) by simp
  then show ?thesis using map_incr_entry [OF e, of b'] assms(3) True by simp
qed

lemma bump_ok:
  assumes "size_of_int a < length sp" "positive ((sp ! size_of_int a) b)"
    and "count_of ((sp ! size_of_int a) b) < 2147483647"
  shows "\<exists>sp'. bump sp a b = Inr sp'"
proof -
  define c where "c = (case (sp ! size_of_int a) b of None \<Rightarrow> 0 | Some c \<Rightarrow> c)"
  have "nat (sint c) < 2147483647"
    using assms(3) by (auto simp: c_def count_of_def split: option.splits)
  then have "c \<noteq> 2147483647" by auto
  then show ?thesis using assms(1) by (simp add: bump_def map_incr_def Let_def c_def)
qed


lemma shared_inner_entry:
  "shared_inner sp i seen = Inr sp' \<Longrightarrow>
   length sp' = length sp \<and>
   (\<forall>a b. size_of_int a < length sp \<and> positive ((sp ! size_of_int a) b) \<longrightarrow>
      positive ((sp' ! size_of_int a) b) \<and>
      count_of ((sp' ! size_of_int a) b) = count_of ((sp ! size_of_int a) b) + inner_n i seen a b)"
proof (induction seen arbitrary: sp)
  case Nil
  then show ?case by (simp add: inner_n_def)
next
  case (Cons j seen)
  show ?case
  proof (cases "i = j")
    case True
    then have "shared_inner sp i seen = Inr sp'" using Cons.prems by simp
    from Cons.IH [OF this] True show ?thesis
      by (auto simp: inner_n_def)
  next
    case False
    from Cons.prems False obtain sp1 sp2 where
      b1: "bump sp i j = Inr sp1" and b2: "bump sp1 j i = Inr sp2"
      and r: "shared_inner sp2 i seen = Inr sp'"
      by (auto split: sum.splits)
    have l1: "length sp1 = length sp" and l2: "length sp2 = length sp"
      using bump_length [OF b1] bump_length [OF b2] by simp_all
    note ih = Cons.IH [OF r]
    show ?thesis
    proof (intro conjI allI impI)
      show "length sp' = length sp" using ih l2 by simp
    next
      fix a b assume "size_of_int a < length sp \<and> positive ((sp ! size_of_int a) b)"
      then have v: "size_of_int a < length sp" and p0: "positive ((sp ! size_of_int a) b)"
        by simp_all
      note e1 = bump_entry [OF b1 v p0]
      have v1: "size_of_int a < length sp1" using v l1 by simp
      note e2 = bump_entry [OF b2 v1 conjunct1 [OF e1]]
      have v2: "size_of_int a < length sp2 \<and> positive ((sp2 ! size_of_int a) b)"
        using v l2 e2 by simp
      have e3: "positive ((sp' ! size_of_int a) b) \<and>
        count_of ((sp' ! size_of_int a) b) = count_of ((sp2 ! size_of_int a) b) + inner_n i seen a b"
        using ih v2 by blast
      have n: "inner_n i (j # seen) a b =
          inner_n i seen a b + (if a = i \<and> b = j then 1 else 0) + (if a = j \<and> b = i then 1 else 0)"
        using False by (auto simp: inner_n_def)
      show "positive ((sp' ! size_of_int a) b)" using e3 by simp
      show "count_of ((sp' ! size_of_int a) b) =
            count_of ((sp ! size_of_int a) b) + inner_n i (j # seen) a b"
        using e1 e2 e3 unfolding n by simp
    qed
  qed
qed

lemma pairs_from_count:
  "a \<noteq> b \<Longrightarrow>
   pairs_from seen rest a b + count_list seen a * count_list seen b =
   count_list (seen @ rest) a * count_list (seen @ rest) b"
proof (induction rest arbitrary: seen)
  case Nil
  then show ?case by simp
next
  case (Cons i rest)
  from Cons.IH [OF Cons.prems, of "seen @ [i]"] Cons.prems
  show ?case
    by (auto simp: inner_n_def algebra_simps)
qed

lemma pairs_from_same: "pairs_from seen rest a a = 0"
  by (induction rest arbitrary: seen) (simp_all add: inner_n_def)

lemma pairs_from_Nil: "pairs_from [] t a b = pair_count t a b"
  using pairs_from_count [of a b "[]" t] by (simp add: pair_count_def pairs_from_same)

lemma shared_track_entry:
  "shared_track sp seen rest = Inr sp' \<Longrightarrow>
   length sp' = length sp \<and>
   (\<forall>a b. size_of_int a < length sp \<and> positive ((sp ! size_of_int a) b) \<longrightarrow>
      positive ((sp' ! size_of_int a) b) \<and>
      count_of ((sp' ! size_of_int a) b) =
        count_of ((sp ! size_of_int a) b) + pairs_from seen rest a b)"
proof (induction rest arbitrary: sp seen)
  case Nil
  then show ?case by simp
next
  case (Cons i rest)
  from Cons.prems obtain sp1 where
    s1: "shared_inner sp i seen = Inr sp1" and r: "shared_track sp1 (seen @ [i]) rest = Inr sp'"
    by (auto split: sum.splits)
  note a1 = shared_inner_entry [OF s1]
  note ih = Cons.IH [OF r]
  show ?case
  proof (intro conjI allI impI)
    show "length sp' = length sp" using ih a1 by simp
  next
    fix a b assume h: "size_of_int a < length sp \<and> positive ((sp ! size_of_int a) b)"
    have 1: "positive ((sp1 ! size_of_int a) b) \<and>
      count_of ((sp1 ! size_of_int a) b) = count_of ((sp ! size_of_int a) b) + inner_n i seen a b"
      using a1 h by blast
    have "size_of_int a < length sp1 \<and> positive ((sp1 ! size_of_int a) b)"
      using a1 h 1 by simp
    then have 2: "positive ((sp' ! size_of_int a) b) \<and>
      count_of ((sp' ! size_of_int a) b) =
        count_of ((sp1 ! size_of_int a) b) + pairs_from (seen @ [i]) rest a b"
      using ih by blast
    show "positive ((sp' ! size_of_int a) b)" using 2 by simp
    show "count_of ((sp' ! size_of_int a) b) =
        count_of ((sp ! size_of_int a) b) + pairs_from seen (i # rest) a b"
      using 1 2 by simp
  qed
qed

lemma shared_points_loop_entry:
  "shared_points_loop sp ps = Inr sp' \<Longrightarrow>
   length sp' = length sp \<and>
   (\<forall>a b. size_of_int a < length sp \<and> positive ((sp ! size_of_int a) b) \<longrightarrow>
      positive ((sp' ! size_of_int a) b) \<and>
      count_of ((sp' ! size_of_int a) b) =
        count_of ((sp ! size_of_int a) b) + (\<Sum>p\<leftarrow>ps. pair_count (track p) a b))"
proof (induction ps arbitrary: sp)
  case Nil
  then show ?case by simp
next
  case (Cons p ps)
  from Cons.prems obtain sp1 where
    s1: "shared_track sp [] (track p) = Inr sp1" and r: "shared_points_loop sp1 ps = Inr sp'"
    by (auto split: sum.splits)
  note a1 = shared_track_entry [OF s1]
  note ih = Cons.IH [OF r]
  show ?case
  proof (intro conjI allI impI)
    show "length sp' = length sp" using ih a1 by simp
  next
    fix a b assume h: "size_of_int a < length sp \<and> positive ((sp ! size_of_int a) b)"
    have 1: "positive ((sp1 ! size_of_int a) b) \<and>
      count_of ((sp1 ! size_of_int a) b) = count_of ((sp ! size_of_int a) b) + pair_count (track p) a b"
      using a1 h by (simp add: pairs_from_Nil)
    have "size_of_int a < length sp1 \<and> positive ((sp1 ! size_of_int a) b)"
      using a1 h 1 by simp
    then have 2: "positive ((sp' ! size_of_int a) b) \<and>
      count_of ((sp' ! size_of_int a) b) =
        count_of ((sp1 ! size_of_int a) b) + (\<Sum>p\<leftarrow>ps. pair_count (track p) a b)"
      using ih by blast
    show "positive ((sp' ! size_of_int a) b)" using 2 by simp
    show "count_of ((sp' ! size_of_int a) b) =
        count_of ((sp ! size_of_int a) b) + (\<Sum>p\<leftarrow>p # ps. pair_count (track p) a b)"
      using 1 2 by simp
  qed
qed

text \<open>The loops end normally when the indices are frames and no counter passes \<open>INT_MAX\<close>.\<close>

lemma shared_inner_ok:
  assumes "size_of_int i < length sp" "\<forall>j\<in>set seen. size_of_int j < length sp"
    and "\<forall>a b. size_of_int a < length sp \<longrightarrow>
           positive ((sp ! size_of_int a) b) \<and>
           count_of ((sp ! size_of_int a) b) + inner_n i seen a b \<le> 2147483647"
  shows "\<exists>sp'. shared_inner sp i seen = Inr sp'"
  using assms
proof (induction seen arbitrary: sp)
  case Nil
  then show ?case by simp
next
  case (Cons j seen)
  show ?case
  proof (cases "i = j")
    case True
    have "\<exists>sp'. shared_inner sp i seen = Inr sp'"
    proof (rule Cons.IH)
      show "size_of_int i < length sp" by (rule Cons.prems(1))
      show "\<forall>j\<in>set seen. size_of_int j < length sp" using Cons.prems(2) by simp
      show "\<forall>a b. size_of_int a < length sp \<longrightarrow>
           positive ((sp ! size_of_int a) b) \<and>
           count_of ((sp ! size_of_int a) b) + inner_n i seen a b \<le> 2147483647"
      proof -
        have "inner_n i (j # seen) a b = inner_n i seen a b" for a b
          using True by (simp add: inner_n_def)
        then show ?thesis using Cons.prems(3) by simp
      qed
    qed
    then show ?thesis using True by simp
  next
    case False
    have vj: "size_of_int j < length sp" using Cons.prems(2) by simp
    have n: "inner_n i (j # seen) a b =
          inner_n i seen a b + (if a = i \<and> b = j then 1 else 0) + (if a = j \<and> b = i then 1 else 0)"
      for a b using False by (auto simp: inner_n_def)
    have pij: "positive ((sp ! size_of_int i) j)" and
      cij: "count_of ((sp ! size_of_int i) j) + inner_n i (j # seen) i j \<le> 2147483647"
      using Cons.prems(1,3) by blast+
    have "count_of ((sp ! size_of_int i) j) < 2147483647" using cij n [of i j] by simp
    from bump_ok [OF Cons.prems(1) pij this] obtain sp1 where b1: "bump sp i j = Inr sp1" ..
    have l1: "length sp1 = length sp" using bump_length [OF b1] .
    have e1: "positive ((sp1 ! size_of_int a) b) \<and>
         count_of ((sp1 ! size_of_int a) b) =
           count_of ((sp ! size_of_int a) b) + (if a = i \<and> b = j then 1 else 0)"
      if "size_of_int a < length sp" for a b
      using bump_entry [OF b1 that] Cons.prems(3) that by blast
    have pji: "positive ((sp1 ! size_of_int j) i)" using e1 [OF vj] by simp
    have "count_of ((sp1 ! size_of_int j) i) + inner_n i (j # seen) j i \<le> 2147483647"
      using e1 [OF vj, of i] Cons.prems(3) vj False by auto
    then have "count_of ((sp1 ! size_of_int j) i) < 2147483647" using n [of j i] by simp
    from bump_ok [OF _ pji this] vj l1 obtain sp2 where b2: "bump sp1 j i = Inr sp2" by auto
    have l2: "length sp2 = length sp" using bump_length [OF b2] l1 by simp
    have e2: "positive ((sp2 ! size_of_int a) b) \<and>
         count_of ((sp2 ! size_of_int a) b) =
           count_of ((sp1 ! size_of_int a) b) + (if a = j \<and> b = i then 1 else 0)"
      if "size_of_int a < length sp" for a b
      using bump_entry [OF b2, of a b] e1 [OF that] that l1 by simp
    have "\<exists>sp'. shared_inner sp2 i seen = Inr sp'"
    proof (rule Cons.IH)
      show "size_of_int i < length sp2" using Cons.prems(1) l2 by simp
      show "\<forall>j\<in>set seen. size_of_int j < length sp2" using Cons.prems(2) l2 by simp
      show "\<forall>a b. size_of_int a < length sp2 \<longrightarrow>
           positive ((sp2 ! size_of_int a) b) \<and>
           count_of ((sp2 ! size_of_int a) b) + inner_n i seen a b \<le> 2147483647"
      proof (intro allI impI)
        fix a b assume "size_of_int a < length sp2"
        then have v: "size_of_int a < length sp" using l2 by simp
        have "count_of ((sp ! size_of_int a) b) + inner_n i (j # seen) a b \<le> 2147483647"
          using Cons.prems(3) v by blast
        then show "positive ((sp2 ! size_of_int a) b) \<and>
           count_of ((sp2 ! size_of_int a) b) + inner_n i seen a b \<le> 2147483647"
          using e1 [OF v, of b] e2 [OF v, of b] unfolding n by simp
      qed
    qed
    then show ?thesis using False b1 b2 by simp
  qed
qed

lemma shared_track_ok:
  assumes "\<forall>j\<in>set (seen @ rest). size_of_int j < length sp"
    and "\<forall>a b. size_of_int a < length sp \<longrightarrow>
           positive ((sp ! size_of_int a) b) \<and>
           count_of ((sp ! size_of_int a) b) + pairs_from seen rest a b \<le> 2147483647"
  shows "\<exists>sp'. shared_track sp seen rest = Inr sp'"
  using assms
proof (induction rest arbitrary: sp seen)
  case Nil
  then show ?case by simp
next
  case (Cons i rest)
  have "\<exists>sp1. shared_inner sp i seen = Inr sp1"
  proof (rule shared_inner_ok)
    show "size_of_int i < length sp" using Cons.prems(1) by simp
    show "\<forall>j\<in>set seen. size_of_int j < length sp" using Cons.prems(1) by simp
    show "\<forall>a b. size_of_int a < length sp \<longrightarrow>
           positive ((sp ! size_of_int a) b) \<and>
           count_of ((sp ! size_of_int a) b) + inner_n i seen a b \<le> 2147483647"
    proof (intro allI impI)
      fix a b assume "size_of_int a < length sp"
      then have "positive ((sp ! size_of_int a) b) \<and>
           count_of ((sp ! size_of_int a) b) + pairs_from seen (i # rest) a b \<le> 2147483647"
        using Cons.prems(2) by blast
      then show "positive ((sp ! size_of_int a) b) \<and>
           count_of ((sp ! size_of_int a) b) + inner_n i seen a b \<le> 2147483647"
        by simp
    qed
  qed
  then obtain sp1 where s1: "shared_inner sp i seen = Inr sp1" ..
  note a1 = shared_inner_entry [OF s1]
  have "\<exists>sp'. shared_track sp1 (seen @ [i]) rest = Inr sp'"
  proof (rule Cons.IH)
    show "\<forall>j\<in>set ((seen @ [i]) @ rest). size_of_int j < length sp1"
      using Cons.prems(1) a1 by simp
    show "\<forall>a b. size_of_int a < length sp1 \<longrightarrow>
           positive ((sp1 ! size_of_int a) b) \<and>
           count_of ((sp1 ! size_of_int a) b) + pairs_from (seen @ [i]) rest a b \<le> 2147483647"
    proof (intro allI impI)
      fix a b assume "size_of_int a < length sp1"
      then have v: "size_of_int a < length sp" using a1 by simp
      have h: "positive ((sp ! size_of_int a) b) \<and>
           count_of ((sp ! size_of_int a) b) + pairs_from seen (i # rest) a b \<le> 2147483647"
        using Cons.prems(2) v by blast
      then have "positive ((sp1 ! size_of_int a) b) \<and>
         count_of ((sp1 ! size_of_int a) b) = count_of ((sp ! size_of_int a) b) + inner_n i seen a b"
        using a1 v by blast
      then show "positive ((sp1 ! size_of_int a) b) \<and>
           count_of ((sp1 ! size_of_int a) b) + pairs_from (seen @ [i]) rest a b \<le> 2147483647"
        using h by simp
    qed
  qed
  then show ?case using s1 by simp
qed

lemma shared_points_loop_ok:
  assumes "\<forall>p\<in>set ps. \<forall>j\<in>set (track p). size_of_int j < length sp"
    and "\<forall>a b. size_of_int a < length sp \<longrightarrow>
           positive ((sp ! size_of_int a) b) \<and>
           count_of ((sp ! size_of_int a) b) + (\<Sum>p\<leftarrow>ps. pair_count (track p) a b) \<le> 2147483647"
  shows "\<exists>sp'. shared_points_loop sp ps = Inr sp'"
  using assms
proof (induction ps arbitrary: sp)
  case Nil
  then show ?case by simp
next
  case (Cons p ps)
  have "\<exists>sp1. shared_track sp [] (track p) = Inr sp1"
  proof (rule shared_track_ok)
    show "\<forall>j\<in>set ([] @ track p). size_of_int j < length sp" using Cons.prems(1) by simp
    show "\<forall>a b. size_of_int a < length sp \<longrightarrow>
           positive ((sp ! size_of_int a) b) \<and>
           count_of ((sp ! size_of_int a) b) + pairs_from [] (track p) a b \<le> 2147483647"
    proof (intro allI impI)
      fix a b assume "size_of_int a < length sp"
      then have "positive ((sp ! size_of_int a) b) \<and>
           count_of ((sp ! size_of_int a) b) + (\<Sum>p\<leftarrow>p # ps. pair_count (track p) a b) \<le> 2147483647"
        using Cons.prems(2) by blast
      then show "positive ((sp ! size_of_int a) b) \<and>
           count_of ((sp ! size_of_int a) b) + pairs_from [] (track p) a b \<le> 2147483647"
        by (simp add: pairs_from_Nil)
    qed
  qed
  then obtain sp1 where s1: "shared_track sp [] (track p) = Inr sp1" ..
  note a1 = shared_track_entry [OF s1]
  have "\<exists>sp'. shared_points_loop sp1 ps = Inr sp'"
  proof (rule Cons.IH)
    show "\<forall>p\<in>set ps. \<forall>j\<in>set (track p). size_of_int j < length sp1"
      using Cons.prems(1) a1 by simp
    show "\<forall>a b. size_of_int a < length sp1 \<longrightarrow>
           positive ((sp1 ! size_of_int a) b) \<and>
           count_of ((sp1 ! size_of_int a) b) + (\<Sum>p\<leftarrow>ps. pair_count (track p) a b) \<le> 2147483647"
    proof (intro allI impI)
      fix a b assume "size_of_int a < length sp1"
      then have v: "size_of_int a < length sp" using a1 by simp
      have h: "positive ((sp ! size_of_int a) b) \<and>
           count_of ((sp ! size_of_int a) b) + (\<Sum>p\<leftarrow>p # ps. pair_count (track p) a b) \<le> 2147483647"
        using Cons.prems(2) v by blast
      then have "positive ((sp1 ! size_of_int a) b) \<and>
         count_of ((sp1 ! size_of_int a) b) =
           count_of ((sp ! size_of_int a) b) + pair_count (track p) a b"
        using a1 v by (simp add: pairs_from_Nil)
      then show "positive ((sp1 ! size_of_int a) b) \<and>
           count_of ((sp1 ! size_of_int a) b) + (\<Sum>p\<leftarrow>ps. pair_count (track p) a b) \<le> 2147483647"
        using h by simp
    qed
  qed
  then show ?case using s1 by simp
qed

lemma entry_of_count:
  assumes "positive v" "count_of v = n"
  shows "n \<le> 2147483647 \<and> v = (if n = 0 then None else Some (of_nat n))"
proof (cases v)
  case None
  then show ?thesis using assms by (simp add: count_of_def)
next
  case (Some c)
  have p: "0 < sint c" using assms(1) Some by (simp add: positive_def)
  have n: "int n = sint c" using assms(2) Some p by (simp add: count_of_def)
  have "sint c < 2 ^ (LENGTH(32) - 1)" by (rule sint_lt)
  then have b: "n \<le> 2147483647" using n by simp
  have "(of_nat n :: cint) = of_int (int n)" by simp
  also have "\<dots> = of_int (sint c)" by (simp only: n)
  also have "\<dots> = c" by simp
  finally show ?thesis using b p n Some by auto
qed

lemma ComputeSharedPoints_count:
  assumes "ComputeSharedPoints m = Inr sp" "size_of_int a < length (images m)"
  shows "positive ((sp ! size_of_int a) b) \<and> count_of ((sp ! size_of_int a) b) = shared_total m a b"
proof -
  have "positive ((sp ! size_of_int a) b) \<and>
      count_of ((sp ! size_of_int a) b) =
        count_of ((replicate (length (images m)) Map.empty ! size_of_int a) b) +
        (\<Sum>p\<leftarrow>points m. pair_count (track p) a b)"
    using shared_points_loop_entry [OF assms(1) [unfolded ComputeSharedPoints_def]] assms(2)
    by (simp add: positive_def)
  then show ?thesis using assms(2) by (simp add: count_of_def shared_total_def)
qed

lemma ComputeSharedPoints_entry:
  assumes "ComputeSharedPoints m = Inr sp" "size_of_int a < length (images m)"
  shows "shared_total m a b \<le> 2147483647 \<and>
         (sp ! size_of_int a) b =
         (if shared_total m a b = 0 then None else Some (of_nat (shared_total m a b)))"
  using ComputeSharedPoints_count [OF assms, of b] entry_of_count by blast

lemma ComputeSharedPoints_length:
  "ComputeSharedPoints m = Inr sp \<Longrightarrow> length sp = length (images m)"
  using shared_points_loop_entry [of "replicate (length (images m)) Map.empty" "points m" sp]
  by (simp add: ComputeSharedPoints_def)

lemma ComputeSharedPoints_ok:
  assumes "\<forall>p\<in>set (points m). \<forall>j\<in>set (track p). size_of_int j < length (images m)"
    and "\<forall>a b. size_of_int a < length (images m) \<longrightarrow> shared_total m a b \<le> 2147483647"
  shows "\<exists>sp. ComputeSharedPoints m = Inr sp"
  unfolding ComputeSharedPoints_def
proof (rule shared_points_loop_ok)
  show "\<forall>p\<in>set (points m). \<forall>j\<in>set (track p).
          size_of_int j < length (replicate (length (images m)) (Map.empty :: cint \<rightharpoonup> cint))"
    using assms(1) by simp
  show "\<forall>a b. size_of_int a < length (replicate (length (images m)) (Map.empty :: cint \<rightharpoonup> cint)) \<longrightarrow>
       positive ((replicate (length (images m)) Map.empty ! size_of_int a) b) \<and>
       count_of ((replicate (length (images m)) Map.empty ! size_of_int a) b) +
         (\<Sum>p\<leftarrow>points m. pair_count (track p) a b) \<le> 2147483647"
    using assms(2) by (simp add: positive_def count_of_def shared_total_def)
qed

text \<open>With frame indices in the tracks the only failure is the overflow of a counter.\<close>

lemma bump_error:
  "bump sp a b = Inl e \<Longrightarrow> size_of_int a < length sp \<Longrightarrow> e = UndefinedBehaviour"
  by (auto simp: bump_def map_incr_def Let_def split: sum.splits if_splits)

lemma shared_inner_error:
  "shared_inner sp i seen = Inl e \<Longrightarrow> size_of_int i < length sp \<Longrightarrow>
   \<forall>j\<in>set seen. size_of_int j < length sp \<Longrightarrow> e = UndefinedBehaviour"
proof (induction seen arbitrary: sp)
  case Nil
  then show ?case by simp
next
  case (Cons j seen)
  show ?case
  proof (cases "i = j")
    case True
    then show ?thesis using Cons by simp
  next
    case False
    show ?thesis
    proof (cases "bump sp i j")
      case (Inl e1)
      then show ?thesis using Cons.prems False bump_error by simp
    next
      case b1: (Inr sp1)
      have l1: "length sp1 = length sp" using bump_length [OF b1] .
      show ?thesis
      proof (cases "bump sp1 j i")
        case (Inl e2)
        then have "e2 = UndefinedBehaviour" using bump_error [of sp1 j i e2] Cons.prems(3) l1 by simp
        then show ?thesis using Cons.prems(1) False b1 Inl by simp
      next
        case b2: (Inr sp2)
        have l2: "length sp2 = length sp" using bump_length [OF b2] l1 by simp
        have "shared_inner sp2 i seen = Inl e" using Cons.prems(1) False b1 b2 by simp
        then show ?thesis using Cons.IH [of sp2] Cons.prems(2,3) l2 by simp
      qed
    qed
  qed
qed

lemma shared_track_error:
  "shared_track sp seen rest = Inl e \<Longrightarrow>
   \<forall>j\<in>set (seen @ rest). size_of_int j < length sp \<Longrightarrow> e = UndefinedBehaviour"
proof (induction rest arbitrary: sp seen)
  case Nil
  then show ?case by simp
next
  case (Cons i rest)
  show ?case
  proof (cases "shared_inner sp i seen")
    case (Inl e1)
    then have "e1 = UndefinedBehaviour" using shared_inner_error [of sp i seen e1] Cons.prems(2) by simp
    then show ?thesis using Cons.prems(1) Inl by simp
  next
    case s1: (Inr sp1)
    have l1: "length sp1 = length sp" using shared_inner_entry [OF s1] by simp
    have "shared_track sp1 (seen @ [i]) rest = Inl e" using Cons.prems(1) s1 by simp
    then show ?thesis using Cons.IH [of sp1 "seen @ [i]"] Cons.prems(2) l1 by simp
  qed
qed

lemma shared_points_loop_error:
  "shared_points_loop sp ps = Inl e \<Longrightarrow>
   \<forall>p\<in>set ps. \<forall>j\<in>set (track p). size_of_int j < length sp \<Longrightarrow> e = UndefinedBehaviour"
proof (induction ps arbitrary: sp)
  case Nil
  then show ?case by simp
next
  case (Cons p ps)
  show ?case
  proof (cases "shared_track sp [] (track p)")
    case (Inl e1)
    then have "e1 = UndefinedBehaviour" using shared_track_error [of sp "[]" "track p" e1] Cons.prems(2) by simp
    then show ?thesis using Cons.prems(1) Inl by simp
  next
    case s1: (Inr sp1)
    have l1: "length sp1 = length sp" using shared_track_entry [OF s1] by simp
    have "shared_points_loop sp1 ps = Inl e" using Cons.prems(1) s1 by simp
    then show ?thesis using Cons.IH [of sp1] Cons.prems(2) l1 by simp
  qed
qed

lemma ComputeSharedPoints_overflow:
  assumes "\<forall>p\<in>set (points m). \<forall>j\<in>set (track p). size_of_int j < length (images m)"
    and "size_of_int a < length (images m)" "2147483647 < shared_total m a b"
  shows "ComputeSharedPoints m = Inl UndefinedBehaviour"
proof (cases "ComputeSharedPoints m")
  case (Inl e)
  then have "e = UndefinedBehaviour"
    using shared_points_loop_error [of "replicate (length (images m)) Map.empty" "points m" e] assms(1)
    by (simp add: ComputeSharedPoints_def)
  then show ?thesis using Inl by simp
next
  case (Inr sp)
  from ComputeSharedPoints_entry [OF Inr assms(2), of b] assms(3) show ?thesis by simp
qed

lemma count_list_distinct: "distinct t \<Longrightarrow> count_list t a = (if a \<in> set t then 1 else 0)"
  by (induction t) auto

lemma count_list_replicate: "count_list (replicate n c) a = (if a = c then n else 0)"
  by (induction n) auto

lemma shared_total_distinct:
  "\<forall>p\<in>set ps. distinct (track p) \<Longrightarrow> a \<noteq> b \<Longrightarrow>
   (\<Sum>p\<leftarrow>ps. pair_count (track p) a b) =
   length (filter (\<lambda>p. a \<in> set (track p) \<and> b \<in> set (track p)) ps)"
  by (induction ps) (auto simp: pair_count_def count_list_distinct)

lemma shared_total_sym: "shared_total m a b = shared_total m b a"
proof -
  have "pair_count t a b = pair_count t b a" for t
    by (simp add: pair_count_def mult.commute)
  then show ?thesis by (simp add: shared_total_def)
qed

text \<open>
  Claim C2. \<open>ComputeSharedPoints\<close> returns one map per frame when every track entry is a
  frame index and no count passes the largest \<open>int\<close>, 2147483647; when a count would pass
  it, the increment of the 32-bit counter overflows and the result is
  \<open>UndefinedBehaviour\<close>. In a returned table the entry of frame \<open>a\<close> for frame \<open>b\<close>
  holds the number of increments it received: one for every pair of positions of a track
  that hold \<open>a\<close> and \<open>b\<close>, summed over the points (\<open>shared_total\<close>, at most
  2147483647), and no entry when there is none. The count is symmetric, a frame has no entry
  for itself, and when the tracks have no repeated index the count for two distinct frames
  is the number of points whose track holds both.
\<close>

theorem ComputeSharedPoints_pairs:
  "((\<forall>p\<in>set (points m). \<forall>j\<in>set (track p). size_of_int j < length (images m)) \<and>
    (\<forall>a b. size_of_int a < length (images m) \<longrightarrow> shared_total m a b \<le> 2147483647) \<longrightarrow>
      (\<exists>sp. ComputeSharedPoints m = Inr sp)) \<and>
   ((\<forall>p\<in>set (points m). \<forall>j\<in>set (track p). size_of_int j < length (images m)) \<and>
    (\<exists>a b. size_of_int a < length (images m) \<and> 2147483647 < shared_total m a b) \<longrightarrow>
      ComputeSharedPoints m = Inl UndefinedBehaviour) \<and>
   (\<forall>sp a b. ComputeSharedPoints m = Inr sp \<and> size_of_int a < length (images m) \<longrightarrow>
      length sp = length (images m) \<and>
      (sp ! size_of_int a) a = None \<and>
      shared_total m a b \<le> 2147483647 \<and>
      (sp ! size_of_int a) b =
        (if shared_total m a b = 0 then None else Some (of_nat (shared_total m a b))) \<and>
      shared_total m a b = shared_total m b a \<and>
      (a \<noteq> b \<and> (\<forall>p\<in>set (points m). distinct (track p)) \<longrightarrow>
         shared_total m a b = observed_by_both m a b))"
proof (intro conjI allI impI)
  assume "(\<forall>p\<in>set (points m). \<forall>j\<in>set (track p). size_of_int j < length (images m)) \<and>
    (\<forall>a b. size_of_int a < length (images m) \<longrightarrow> shared_total m a b \<le> 2147483647)"
  then show "\<exists>sp. ComputeSharedPoints m = Inr sp" using ComputeSharedPoints_ok by blast
next
  assume "(\<forall>p\<in>set (points m). \<forall>j\<in>set (track p). size_of_int j < length (images m)) \<and>
    (\<exists>a b. size_of_int a < length (images m) \<and> 2147483647 < shared_total m a b)"
  then show "ComputeSharedPoints m = Inl UndefinedBehaviour"
    using ComputeSharedPoints_overflow by blast
next
  fix sp a b assume h: "ComputeSharedPoints m = Inr sp \<and> size_of_int a < length (images m)"
  show "length sp = length (images m)" using h ComputeSharedPoints_length by blast
  have "shared_total m a a = 0" by (simp add: shared_total_def pair_count_def)
  then show "(sp ! size_of_int a) a = None"
    using ComputeSharedPoints_entry [of m sp a a] h by simp
  show "shared_total m a b \<le> 2147483647"
    using ComputeSharedPoints_entry [of m sp a b] h by simp
  show "(sp ! size_of_int a) b =
        (if shared_total m a b = 0 then None else Some (of_nat (shared_total m a b)))"
    using ComputeSharedPoints_entry [of m sp a b] h by simp
  show "shared_total m a b = shared_total m b a"
    by (rule shared_total_sym)
next
  fix a b :: cint
  assume "a \<noteq> b \<and> (\<forall>p\<in>set (points m). distinct (track p))"
  then show "shared_total m a b = observed_by_both m a b"
    unfolding shared_total_def observed_by_both_def
    using shared_total_distinct [of "points m" a b] by simp
qed

lemma size_of_int_numerals [simp]:
  "size_of_int 0 = 0" "size_of_int 1 = 1" "size_of_int 2 = 2"
  by (simp_all add: size_of_int_def)

lemma overflow_example_total: "shared_total overflow_example 0 1 = 2147488281"
  by (simp add: shared_total_def overflow_example_def scene_def origin_point_def pair_count_def
      count_list_replicate)

lemma overflow_example_valid:
  "\<forall>p\<in>set (points overflow_example). \<forall>j\<in>set (track p).
     size_of_int j < length (images overflow_example)"
  by (auto simp: overflow_example_def scene_def origin_point_def)

text \<open>
  The scenario of the specification: one point observed by the frames 0, 1 and 2 of three.
  And a scene of two frames with one track of 46341 entries 0 followed by 46341 entries 1:
  the count of the pair would be 2147488281.
\<close>

theorem ComputeSharedPoints_pairs_witness:
  "(\<exists>sp. ComputeSharedPoints covis_example = Inr sp \<and> length sp = 3 \<and>
     (sp ! 0) 1 = Some 1 \<and> (sp ! 1) 0 = Some 1 \<and> (sp ! 0) 2 = Some 1 \<and> (sp ! 2) 0 = Some 1 \<and>
     (sp ! 1) 2 = Some 1 \<and> (sp ! 2) 1 = Some 1 \<and>
     (sp ! 0) 0 = None \<and> (sp ! 1) 1 = None \<and> (sp ! 2) 2 = None \<and>
     shared_total covis_example 0 1 = observed_by_both covis_example 0 1) \<and>
   ComputeSharedPoints overflow_example = Inl UndefinedBehaviour"
proof
  note t = ComputeSharedPoints_pairs [of covis_example]
  have valid: "\<forall>p\<in>set (points covis_example). \<forall>j\<in>set (track p).
                 size_of_int j < length (images covis_example)"
    by (simp add: covis_example_def scene_def origin_point_def)
  have st: "shared_total covis_example a b = pair_count [0, 1, 2] a b" for a b
    by (simp add: shared_total_def covis_example_def scene_def origin_point_def)
  have bound: "\<forall>a b. size_of_int a < length (images covis_example) \<longrightarrow>
                 shared_total covis_example a b \<le> 2147483647"
    by (simp add: st pair_count_def)
  from t valid bound obtain sp where sp: "ComputeSharedPoints covis_example = Inr sp" by blast
  have len: "length (images covis_example) = 3"
    by (simp add: covis_example_def scene_def)
  have dist: "\<forall>p\<in>set (points covis_example). distinct (track p)"
    by (simp add: covis_example_def scene_def origin_point_def)
  have e: "size_of_int a < 3 \<Longrightarrow> length sp = 3 \<and> (sp ! size_of_int a) a = None \<and>
      (sp ! size_of_int a) b =
        (if pair_count [0, 1, 2] a b = 0 then None else Some (of_nat (pair_count [0, 1, 2] a b)))" for a b
    using t sp len st by metis
  have o: "shared_total covis_example 0 1 = observed_by_both covis_example 0 1"
    using t sp len dist by (metis size_of_int_numerals(1) zero_less_numeral zero_neq_one)
  show "\<exists>sp. ComputeSharedPoints covis_example = Inr sp \<and> length sp = 3 \<and>
     (sp ! 0) 1 = Some 1 \<and> (sp ! 1) 0 = Some 1 \<and> (sp ! 0) 2 = Some 1 \<and> (sp ! 2) 0 = Some 1 \<and>
     (sp ! 1) 2 = Some 1 \<and> (sp ! 2) 1 = Some 1 \<and>
     (sp ! 0) 0 = None \<and> (sp ! 1) 1 = None \<and> (sp ! 2) 2 = None \<and>
     shared_total covis_example 0 1 = observed_by_both covis_example 0 1"
    using sp o e [of 0 1] e [of 1 0] e [of 0 2] e [of 2 0] e [of 1 2] e [of 2 1]
    by (simp add: pair_count_def)
next
  have "size_of_int 0 < length (images overflow_example) \<and>
        2147483647 < shared_total overflow_example 0 1"
    by (simp add: overflow_example_total) (simp add: overflow_example_def scene_def)
  then show "ComputeSharedPoints overflow_example = Inl UndefinedBehaviour"
    using ComputeSharedPoints_pairs [of overflow_example] overflow_example_valid by blast
qed

text \<open>
  Claim C10. A point whose track is \<open>[a, a, b]\<close> with \<open>a \<noteq> b\<close> adds 2, not 1, to the
  entry of \<open>a\<close> for \<open>b\<close> and to the entry of \<open>b\<close> for \<open>a\<close>: each of the two positions
  holding \<open>a\<close> is paired with the position holding \<open>b\<close>. The two occurrences of \<open>a\<close>
  produce no entry of \<open>a\<close> for itself. The other points are arbitrary, as long as their
  track entries are frame indices and no count passes 2147483647, the largest \<open>int\<close>.
\<close>

theorem ComputeSharedPoints_duplicates:
  assumes "points m = p # ps" "track p = [a, a, b]" "a \<noteq> b"
    and "size_of_int a < length (images m)" "size_of_int b < length (images m)"
    and "\<forall>q\<in>set ps. \<forall>j\<in>set (track q). size_of_int j < length (images m)"
    and "\<forall>c d. size_of_int c < length (images m) \<longrightarrow>
           pair_count [a, a, b] c d + (\<Sum>q\<leftarrow>ps. pair_count (track q) c d) \<le> 2147483647"
  shows "\<exists>sp. ComputeSharedPoints m = Inr sp \<and>
           (sp ! size_of_int a) b = Some (of_nat (2 + (\<Sum>q\<leftarrow>ps. pair_count (track q) a b))) \<and>
           (sp ! size_of_int b) a = Some (of_nat (2 + (\<Sum>q\<leftarrow>ps. pair_count (track q) b a))) \<and>
           2 + (\<Sum>q\<leftarrow>ps. pair_count (track q) a b) \<le> 2147483647 \<and>
           2 + (\<Sum>q\<leftarrow>ps. pair_count (track q) b a) \<le> 2147483647 \<and>
           (sp ! size_of_int a) a = None \<and> (sp ! size_of_int b) b = None"
proof -
  have v: "\<forall>q\<in>set (points m). \<forall>j\<in>set (track q). size_of_int j < length (images m)"
    using assms by simp
  have st: "shared_total m c d = pair_count [a, a, b] c d + (\<Sum>q\<leftarrow>ps. pair_count (track q) c d)"
    for c d using assms(1,2) by (simp add: shared_total_def)
  have "\<forall>c d. size_of_int c < length (images m) \<longrightarrow> shared_total m c d \<le> 2147483647"
    using assms(7) by (simp only: st)
  from ComputeSharedPoints_ok [OF v this] obtain sp where sp: "ComputeSharedPoints m = Inr sp" ..
  have ab: "shared_total m a b = 2 + (\<Sum>q\<leftarrow>ps. pair_count (track q) a b)"
    and ba: "shared_total m b a = 2 + (\<Sum>q\<leftarrow>ps. pair_count (track q) b a)"
    and aa: "shared_total m a a = 0" and bb: "shared_total m b b = 0"
    using assms(1-3) by (simp_all add: shared_total_def pair_count_def)
  show ?thesis
    using sp ComputeSharedPoints_entry [OF sp assms(4), of b] ComputeSharedPoints_entry [OF sp assms(5), of a]
      ComputeSharedPoints_entry [OF sp assms(4), of a] ComputeSharedPoints_entry [OF sp assms(5), of b]
    by (simp add: ab ba aa bb)
qed

theorem ComputeSharedPoints_duplicates_witness:
  "\<exists>sp. ComputeSharedPoints duplicate_example = Inr sp \<and>
     (sp ! 0) 1 = Some 2 \<and> (sp ! 1) 0 = Some 2 \<and> (sp ! 0) 0 = None \<and> (sp ! 1) 1 = None"
  using ComputeSharedPoints_duplicates [of duplicate_example "origin_point [0, 0, 1]" "[]" 0 1]
  by (simp add: duplicate_example_def scene_def origin_point_def pair_count_def)

section \<open>Loops\<close>

lemma for_each_append:
  "for_each body s (us @ vs) =
   (case for_each body s us of Inl e \<Rightarrow> Inl e | Inr s' \<Rightarrow> for_each body s' vs)"
  by (induction us arbitrary: s) (auto split: sum.splits)

lemma for_each_inv:
  assumes "for_each body s vs = Inr s'" "I s"
    and "\<And>t v t'. I t \<Longrightarrow> v \<in> set vs \<Longrightarrow> body t v = Inr t' \<Longrightarrow> I t'"
  shows "I s'"
  using assms
proof (induction vs arbitrary: s)
  case Nil
  then show ?case by simp
next
  case (Cons v vs)
  from Cons.prems(1) obtain s1 where b: "body s v = Inr s1" and r: "for_each body s1 vs = Inr s'"
    by (auto split: sum.splits)
  have i1: "I s1" by (rule Cons.prems(3) [OF Cons.prems(2) _ b]) simp
  show ?case
  proof (rule Cons.IH [OF r i1])
    fix t u t' assume "I t" "u \<in> set vs" "body t u = Inr t'"
    then show "I t'" by (intro Cons.prems(3) [of t u t']) simp_all
  qed
qed

lemma for_each_fails:
  assumes "v \<in> set vs" "I s"
    and "\<And>t w t'. I t \<Longrightarrow> w \<in> set vs \<Longrightarrow> body t w = Inr t' \<Longrightarrow> I t'"
    and "\<And>t. I t \<Longrightarrow> \<exists>e. body t v = Inl e"
  shows "\<exists>e. for_each body s vs = Inl e"
  using assms(1,2,3)
proof (induction vs arbitrary: s)
  case Nil
  then show ?case by simp
next
  case (Cons w ws)
  show ?case
  proof (cases "body s w")
    case (Inl e)
    then show ?thesis by simp
  next
    case (Inr s1)
    have i1: "I s1" by (rule Cons.prems(3) [OF Cons.prems(2) _ Inr]) simp
    obtain e where "body s v = Inl e" using assms(4) [OF Cons.prems(2)] by blast
    then have "v \<noteq> w" using Inr by auto
    then have vin: "v \<in> set ws" using Cons.prems(1) by simp
    have "\<exists>e. for_each body s1 ws = Inl e"
    proof (rule Cons.IH [OF vin i1])
      fix t u t' assume "I t" "u \<in> set ws" "body t u = Inr t'"
      then show "I t'" by (intro Cons.prems(3) [of t u t']) simp_all
    qed
    then show ?thesis using Inr by simp
  qed
qed

section \<open>The legacy bundle reader\<close>

lemma pmvs_image_Inr:
  assumes "pmvs_image env dir file m i = Inr m'"
  shows "feq (k1 (image_block file i)) (Fin 0) \<and> feq (k2 (image_block file i)) (Fin 0) \<and>
         map GetR (images m') = map GetR (images m) @ [pmvs_R file i] \<and>
         map GetT (images m') = map GetT (images m) @ [pmvs_T file i] \<and>
         image_names m' = image_names m @ [pmvs_name i] \<and>
         image_name_to_id m' = emplace (image_name_to_id m) (pmvs_name i) (of_nat i) \<and>
         points m' = points m \<and> depth_maps m' = depth_maps m \<and> normal_maps m' = normal_maps m \<and>
         consistency_graph m' = consistency_graph m"
proof (cases "bitmap_Read env (JoinPaths [dir, ''visualize'', pmvs_name i])")
  case None
  then show ?thesis using assms by (simp add: pmvs_image_def Let_def pmvs_name_def)
next
  case (Some wh)
  obtain w h where wh: "wh = (w, h)" by (cases wh)
  show ?thesis
  proof (cases "feq (k1 (image_block file i)) (Fin 0) \<and> feq (k2 (image_block file i)) (Fin 0)")
    case False
    then show ?thesis using assms Some wh
      by (auto simp: pmvs_image_def Let_def pmvs_name_def split: if_splits)
  next
    case True
    then have "m' = m\<lparr>images := images m @
                     [\<lparr>GetPath = JoinPaths [dir, ''visualize'', pmvs_name i],
                       GetK = [focal (image_block file i), Fin 0, fdiv (float_of_int w) (Fin 2),
                               Fin 0, focal (image_block file i), fdiv (float_of_int h) (Fin 2),
                               Fin 0, Fin 0, Fin 1],
                       GetR = pmvs_R file i,
                       GetT = pmvs_T file i\<rparr>],
                   image_names := image_names m @ [pmvs_name i],
                   image_name_to_id := emplace (image_name_to_id m) (pmvs_name i) (of_nat i)\<rparr>"
      using assms Some wh
      by (simp add: pmvs_image_def Let_def pmvs_name_def pmvs_R_def pmvs_T_def)
    then show ?thesis using True by simp
  qed
qed

lemma pmvs_images_loop:
  "for_each (pmvs_image env dir file) m is = Inr m' \<Longrightarrow>
   (\<forall>i\<in>set is. feq (k1 (image_block file i)) (Fin 0) \<and> feq (k2 (image_block file i)) (Fin 0)) \<and>
   map GetR (images m') = map GetR (images m) @ map (pmvs_R file) is \<and>
   map GetT (images m') = map GetT (images m) @ map (pmvs_T file) is \<and>
   image_names m' = image_names m @ map pmvs_name is \<and>
   image_name_to_id m' = emplace_all (image_name_to_id m) (map (\<lambda>i. (pmvs_name i, of_nat i)) is) \<and>
   points m' = points m \<and> depth_maps m' = depth_maps m \<and> normal_maps m' = normal_maps m \<and>
   consistency_graph m' = consistency_graph m"
proof (induction "is" arbitrary: m)
  case Nil
  then show ?case by (simp add: emplace_all_def)
next
  case (Cons i "is")
  from Cons.prems obtain m1 where b: "pmvs_image env dir file m i = Inr m1"
    and r: "for_each (pmvs_image env dir file) m1 is = Inr m'"
    by (auto split: sum.splits)
  note a = pmvs_image_Inr [OF b] and c = Cons.IH [OF r]
  have 1: "\<forall>j\<in>set (i # is). feq (k1 (image_block file j)) (Fin 0) \<and> feq (k2 (image_block file j)) (Fin 0)"
    using a c by simp
  have 2: "map GetR (images m') = map GetR (images m) @ map (pmvs_R file) (i # is)"
    using a c by simp
  have 3: "map GetT (images m') = map GetT (images m) @ map (pmvs_T file) (i # is)"
    using a c by simp
  have 4: "image_names m' = image_names m @ map pmvs_name (i # is)"
    using a c by simp
  have 5: "image_name_to_id m' =
      emplace_all (image_name_to_id m) (map (\<lambda>i. (pmvs_name i, of_nat i)) (i # is))"
    using a c by (simp add: emplace_all_def)
  have 6: "points m' = points m \<and> depth_maps m' = depth_maps m \<and> normal_maps m' = normal_maps m \<and>
   consistency_graph m' = consistency_graph m"
    using a c by simp
  show ?case using 1 2 3 4 5 6 by blast
qed


lemma pmvs_point_Inr:
  assumes "pmvs_point file m pid = Inr m'"
  shows "images m' = images m \<and> image_names m' = image_names m \<and>
         image_name_to_id m' = image_name_to_id m \<and> length (points m') = length (points m)"
  using assms
  by (auto simp: pmvs_point_def Let_def split: if_splits sum.splits)

lemma pmvs_points_loop:
  assumes "for_each (pmvs_point file) m pids = Inr m'"
  shows "images m' = images m \<and> image_names m' = image_names m \<and>
         image_name_to_id m' = image_name_to_id m"
proof (rule for_each_inv [OF assms, where I = "\<lambda>t. images t = images m \<and> image_names t = image_names m \<and>
         image_name_to_id t = image_name_to_id m"])
  show "images m = images m \<and> image_names m = image_names m \<and>
         image_name_to_id m = image_name_to_id m" by simp
next
  fix t v t'
  assume "images t = images m \<and> image_names t = image_names m \<and>
         image_name_to_id t = image_name_to_id m" "pmvs_point file t v = Inr t'"
  then show "images t' = images m \<and> image_names t' = image_names m \<and>
         image_name_to_id t' = image_name_to_id m"
    using pmvs_point_Inr [of _ t v t'] by simp
qed

lemma resize_slots_fields [simp]:
  "images (resize_slots m) = images m" "image_names (resize_slots m) = image_names m"
  "image_name_to_id (resize_slots m) = image_name_to_id m" "points (resize_slots m) = points m"
  by (simp_all add: resize_slots_def)

lemma ReadFromPMVS_Inr:
  assumes "ReadFromPMVS env dir m = Inr m'"
  shows "\<exists>file. file_open env (JoinPaths [dir, ''bundle.rd.out'']) = Some file \<and>
     (\<forall>i\<in>set (pmvs_ids file).
         feq (k1 (image_block file i)) (Fin 0) \<and> feq (k2 (image_block file i)) (Fin 0)) \<and>
     map GetR (images m') = map GetR (images m) @ map (pmvs_R file) (pmvs_ids file) \<and>
     map GetT (images m') = map GetT (images m) @ map (pmvs_T file) (pmvs_ids file) \<and>
     image_names m' = image_names m @ map pmvs_name (pmvs_ids file) \<and>
     image_name_to_id m' =
       emplace_all (image_name_to_id m) (map (\<lambda>i. (pmvs_name i, of_nat i)) (pmvs_ids file))"
proof -
  from assms obtain bf where f: "file_open env (JoinPaths [dir, ''bundle.rd.out'']) = Some bf"
    by (auto simp: ReadFromPMVS_def split: option.splits)
  from assms f obtain m1 where
    l1: "for_each (pmvs_image env dir bf) m (pmvs_ids bf) = Inr m1"
    by (auto simp: ReadFromPMVS_def pmvs_ids_def split: if_splits sum.splits)
  from assms f l1 obtain m2 where
    l2: "for_each (pmvs_point bf)
           (m1\<lparr>points := resize \<lparr>x = Fin 0, y = Fin 0, z = Fin 0, track = []\<rparr>
                            (points m1) (nat (sint (num_points bf)))\<rparr>)
           [0..<nat (sint (num_points bf))] = Inr m2"
    and m': "m' = resize_slots m2"
    by (auto simp: ReadFromPMVS_def pmvs_ids_def split: if_splits sum.splits)
  note a = pmvs_images_loop [OF l1]
  note b = pmvs_points_loop [OF l2]
  show ?thesis
    using f a b m' by simp
qed

lemma upt_0_3: "[0..<3] = [0, 1, 2]"
  by code_simp

lemma pmvs_R_spec: "pmvs_R file i = spec_negate_rows {1, 2} (map (rot_in (image_block file i)) [0..<9])"
proof -
  have "j < 9 \<Longrightarrow> (3 \<le> j) = (j div 3 = 1 \<or> j div 3 = 2)" for j :: nat
    by arith
  then show ?thesis
    by (simp add: pmvs_R_def spec_negate_rows_def)
qed

lemma pmvs_T_spec:
  "pmvs_T file i = spec_negate_components {1, 2} (map (trans_in (image_block file i)) [0..<3])"
  by (simp add: pmvs_T_def spec_negate_components_def upt_0_3)

lemma size_of_int_less:
  assumes "n \<le> 2 ^ 63"
  shows "size_of_int a < n \<longleftrightarrow> 0 \<le> sint a \<and> nat (sint a) < n"
proof (cases "0 \<le> sint a")
  case True
  then show ?thesis by (simp add: size_of_int_eq)
next
  case False
  have "- (2 ^ 31) \<le> sint a" using sint_ge [of a] by simp
  then have "(2::int) ^ 63 \<le> sint a + 2 ^ 64" by simp
  then have "(2::nat) ^ 63 \<le> nat (sint a + 2 ^ 64)" by (simp add: le_nat_iff)
  then show ?thesis using False assms by (simp add: size_of_int_eq)
qed

lemma pmvs_track_el_length:
  "pmvs_track_el n blk tr i = Inr tr' \<Longrightarrow> length tr' = length tr"
  by (auto simp: pmvs_track_el_def Let_def split: if_splits)

lemma pmvs_track_el_fails:
  assumes "i < length tr" "\<not> size_of_int (image_idx (track_el blk i)) < n"
  shows "pmvs_track_el n blk tr i = Inl CheckFailed"
  using assms by (simp add: pmvs_track_el_def Let_def)

lemma pmvs_track_loop_fails:
  assumes "i < k" "length tr = k" "\<not> size_of_int (image_idx (track_el blk i)) < n"
  shows "\<exists>e. for_each (pmvs_track_el n blk) tr [0..<k] = Inl e"
proof (rule for_each_fails [where v = i and I = "\<lambda>t. length t = k"])
  show "i \<in> set [0..<k]" using assms(1) by simp
  show "length tr = k" by (rule assms(2))
next
  fix t t' :: "cint list" and w assume "length t = k" "pmvs_track_el n blk t w = Inr t'"
  then show "length t' = k" using pmvs_track_el_length by fastforce
next
  fix t :: "cint list" assume "length t = k"
  then show "\<exists>e. pmvs_track_el n blk t i = Inl e"
    using pmvs_track_el_fails [of i t blk n] assms(1,3) by simp
qed

lemma pmvs_point_fails:
  assumes "pid < length (points m)" "i < nat (sint (track_len (point_block bf pid)))"
    and "\<not> size_of_int (image_idx (track_el (point_block bf pid) i)) < length (images m)"
  shows "\<exists>e. pmvs_point bf m pid = Inl e"
proof (cases "sint (track_len (point_block bf pid)) < 0")
  case True
  then show ?thesis by (simp add: pmvs_point_def Let_def)
next
  case False
  have "\<exists>e. for_each (pmvs_track_el (length (images m)) (point_block bf pid))
          (resize 0 (track (points m ! pid)) (nat (sint (track_len (point_block bf pid)))))
          [0..<nat (sint (track_len (point_block bf pid)))] = Inl e"
    using assms(2,3) by (intro pmvs_track_loop_fails [where i = i]) (simp_all add: resize_def)
  then show ?thesis using False by (auto simp: pmvs_point_def Let_def)
qed

lemma pmvs_points_loop_fails:
  assumes "pid < k" "length (points m) = k" "i < nat (sint (track_len (point_block bf pid)))"
    and "\<not> size_of_int (image_idx (track_el (point_block bf pid) i)) < length (images m)"
  shows "\<exists>e. for_each (pmvs_point bf) m [0..<k] = Inl e"
proof (rule for_each_fails [where v = pid and
      I = "\<lambda>t. length (points t) = k \<and> images t = images m"])
  show "pid \<in> set [0..<k]" using assms(1) by simp
  show "length (points m) = k \<and> images m = images m" using assms(2) by simp
next
  fix t t' :: Model and w
  assume "length (points t) = k \<and> images t = images m" "pmvs_point bf t w = Inr t'"
  then show "length (points t') = k \<and> images t' = images m"
    using pmvs_point_Inr [of bf t w t'] by simp
next
  fix t :: Model assume "length (points t) = k \<and> images t = images m"
  then show "\<exists>e. pmvs_point bf t pid = Inl e"
    using pmvs_point_fails [of pid t i bf] assms(1,3,4) by simp
qed


lemma ReadFromPMVS_bad_track:
  assumes "file_open env (JoinPaths [dir, ''bundle.rd.out'']) = Some bf"
    and "pid < nat (sint (num_points bf))"
    and "i < nat (sint (track_len (point_block bf pid)))"
    and "\<not> size_of_int (image_idx (track_el (point_block bf pid) i)) <
            length (images m) + nat (sint (num_images bf))"
  shows "\<exists>e. ReadFromPMVS env dir m = Inl e"
proof (cases "ReadFromPMVS env dir m")
  case (Inl e)
  then show ?thesis by simp
next
  case (Inr m')
  from Inr assms(1) obtain m1 where
    l1: "for_each (pmvs_image env dir bf) m (pmvs_ids bf) = Inr m1"
    by (auto simp: ReadFromPMVS_def pmvs_ids_def split: if_splits sum.splits)
  let ?m1 = "m1\<lparr>points := resize \<lparr>x = Fin 0, y = Fin 0, z = Fin 0, track = []\<rparr>
                            (points m1) (nat (sint (num_points bf)))\<rparr>"
  from Inr assms(1) l1 obtain m2 where
    l2: "for_each (pmvs_point bf) ?m1 [0..<nat (sint (num_points bf))] = Inr m2"
    by (auto simp: ReadFromPMVS_def pmvs_ids_def split: if_splits sum.splits)
  have "length (map GetR (images m1)) = length (map GetR (images m) @ map (pmvs_R bf) (pmvs_ids bf))"
    using pmvs_images_loop [OF l1] by simp
  then have len: "length (images m1) = length (images m) + nat (sint (num_images bf))"
    by (simp add: pmvs_ids_def)
  have "\<exists>e. for_each (pmvs_point bf) ?m1 [0..<nat (sint (num_points bf))] = Inl e"
    using assms(2,3,4) len
    by (intro pmvs_points_loop_fails [where pid = pid and i = i]) (simp_all add: resize_def)
  then show ?thesis using l2 by simp
qed

section \<open>The canonical reader\<close>

lemma map_err_fails:
  "v \<in> set vs \<Longrightarrow> f v = Inl e \<Longrightarrow> \<exists>e'. map_err f vs = Inl e'"
  by (induction vs) (auto split: sum.splits)

lemma emplace_all_map_of: "emplace_all m kvs = map_of kvs ++ m"
  unfolding emplace_all_def
proof (induction kvs arbitrary: m)
  case Nil
  then show ?case by simp
next
  case (Cons kv kvs)
  have "foldl (\<lambda>mp kv. emplace mp (fst kv) (snd kv)) m (kv # kvs) =
        foldl (\<lambda>mp kv. emplace mp (fst kv) (snd kv)) (emplace m (fst kv) (snd kv)) kvs"
    by simp
  also have "\<dots> = map_of kvs ++ emplace m (fst kv) (snd kv)"
    by (rule Cons.IH)
  also have "\<dots> = (map_of kvs)(fst kv \<mapsto> snd kv) ++ m"
    by (rule ext) (auto simp: emplace_def map_add_def split: option.splits)
  also have "\<dots> = map_of (kv # kvs) ++ m" by simp
  finally show ?case .
qed

lemma colmap_image_Inr:
  assumes "colmap_image env dir rc (m, mp) i = Inr (m', mp')"
  shows "Images rc (RegImageIds rc ! i) \<noteq> None \<and>
         image_names m' = image_names m @ [reg_name rc i] \<and>
         image_name_to_id m' = emplace (image_name_to_id m) (reg_name rc i) (of_nat i) \<and>
         length (images m') = length (images m) + 1 \<and>
         mp' = emplace mp (RegImageIds rc ! i) i \<and> points m' = points m"
proof (cases "Images rc (RegImageIds rc ! i)")
  case None
  then show ?thesis using assms by (simp add: colmap_image_def Let_def)
next
  case (Some img)
  show ?thesis
  proof (cases "Cameras rc (CameraId img)")
    case None
    then show ?thesis using assms Some by (simp add: colmap_image_def Let_def)
  next
    case (Some cam)
    show ?thesis
      using assms \<open>Images rc (RegImageIds rc ! i) = Some img\<close> Some
      by (auto simp: colmap_image_def Let_def reg_name_def split: if_splits)
  qed
qed

lemma colmap_images_loop:
  "for_each (colmap_image env dir rc) (m, mp) is = Inr (m', mp') \<Longrightarrow>
   image_names m' = image_names m @ map (reg_name rc) is \<and>
   image_name_to_id m' =
     emplace_all (image_name_to_id m) (map (\<lambda>i. (reg_name rc i, of_nat i)) is) \<and>
   length (images m') = length (images m) + length is \<and>
   mp' = emplace_all mp (map (\<lambda>i. (RegImageIds rc ! i, i)) is) \<and> points m' = points m"
proof (induction "is" arbitrary: m mp)
  case Nil
  then show ?case by (simp add: emplace_all_def)
next
  case (Cons i "is")
  from Cons.prems obtain m1 mp1 where b: "colmap_image env dir rc (m, mp) i = Inr (m1, mp1)"
    and r: "for_each (colmap_image env dir rc) (m1, mp1) is = Inr (m', mp')"
    by (auto split: sum.splits)
  note a = colmap_image_Inr [OF b] and c = Cons.IH [OF r]
  have 1: "image_names m' = image_names m @ map (reg_name rc) (i # is)"
    using a c by simp
  have 2: "image_name_to_id m' =
     emplace_all (image_name_to_id m) (map (\<lambda>i. (reg_name rc i, of_nat i)) (i # is))"
    using a c by (simp add: emplace_all_def)
  have 3: "length (images m') = length (images m) + length (i # is)"
    using a c by simp
  have 4: "mp' = emplace_all mp (map (\<lambda>i. (RegImageIds rc ! i, i)) (i # is))"
    using a c by (simp add: emplace_all_def)
  have 5: "points m' = points m" using a c by simp
  show ?case using 1 2 3 4 5 by blast
qed

lemma colmap_point_Inr:
  "colmap_point mp m p = Inr m' \<Longrightarrow>
   images m' = images m \<and> image_names m' = image_names m \<and>
   image_name_to_id m' = image_name_to_id m"
  by (auto simp: colmap_point_def split: sum.splits)

lemma colmap_points_loop:
  assumes "for_each (colmap_point mp) m ps = Inr m'"
  shows "images m' = images m \<and> image_names m' = image_names m \<and>
         image_name_to_id m' = image_name_to_id m"
proof (rule for_each_inv [OF assms, where I = "\<lambda>t. images t = images m \<and> image_names t = image_names m \<and>
         image_name_to_id t = image_name_to_id m"])
  show "images m = images m \<and> image_names m = image_names m \<and>
         image_name_to_id m = image_name_to_id m" by simp
next
  fix t t' :: Model and v
  assume "images t = images m \<and> image_names t = image_names m \<and>
         image_name_to_id t = image_name_to_id m" "colmap_point mp t v = Inr t'"
  then show "images t' = images m \<and> image_names t' = image_names m \<and>
         image_name_to_id t' = image_name_to_id m"
    using colmap_point_Inr [of mp t v t'] by simp
qed

lemma colmap_point_fails:
  assumes "el \<in> set (Elements (snd p))" "mp (image_id el) = None"
  shows "\<exists>e. colmap_point mp m p = Inl e"
proof -
  have "\<exists>e. map_err (\<lambda>track_el. case mp (image_id track_el) of
                            None \<Rightarrow> Inl OutOfRange
                          | Some i \<Rightarrow> Inr (of_nat i :: cint)) (Elements (snd p)) = Inl e"
    using assms by (intro map_err_fails [where v = el and e = OutOfRange]) simp_all
  then show ?thesis by (auto simp: colmap_point_def)
qed

lemma ReadFromCOLMAP_Inr:
  assumes "ReadFromCOLMAP env dir m = Inr m'"
  shows "\<exists>rc. reconstruction_Read env (JoinPaths [dir, ''sparse'']) = Inr rc \<and>
     image_names m' = image_names m @ map (reg_name rc) [0..<length (RegImageIds rc)] \<and>
     image_name_to_id m' =
       emplace_all (image_name_to_id m)
         (map (\<lambda>i. (reg_name rc i, of_nat i)) [0..<length (RegImageIds rc)]) \<and>
     length (images m') = length (images m) + length (RegImageIds rc)"
proof -
  from assms obtain rc where f: "reconstruction_Read env (JoinPaths [dir, ''sparse'']) = Inr rc"
    by (auto simp: ReadFromCOLMAP_def split: sum.splits)
  from assms f obtain m1 mp where
    l1: "for_each (colmap_image env dir rc) (m, Map.empty) [0..<length (RegImageIds rc)] = Inr (m1, mp)"
    by (auto simp: ReadFromCOLMAP_def split: sum.splits)
  from assms f l1 obtain m2 where
    l2: "for_each (colmap_point mp) m1 (Points3D rc) = Inr m2" and m': "m' = resize_slots m2"
    by (auto simp: ReadFromCOLMAP_def split: sum.splits)
  note a = colmap_images_loop [OF l1]
  note b = colmap_points_loop [OF l2]
  show ?thesis using f a b m' by (simp add: resize_slots_def)
qed

lemma ReadFromCOLMAP_bad_track:
  assumes "reconstruction_Read env (JoinPaths [dir, ''sparse'']) = Inr rc"
    and "p \<in> set (Points3D rc)" "el \<in> set (Elements (snd p))"
    and "image_id el \<notin> set (RegImageIds rc)"
  shows "\<exists>e. ReadFromCOLMAP env dir m = Inl e"
proof (cases "ReadFromCOLMAP env dir m")
  case (Inl e)
  then show ?thesis by simp
next
  case (Inr m')
  from Inr assms(1) obtain m1 mp where
    l1: "for_each (colmap_image env dir rc) (m, Map.empty) [0..<length (RegImageIds rc)] = Inr (m1, mp)"
    by (auto simp: ReadFromCOLMAP_def split: sum.splits)
  from Inr assms(1) l1 obtain m2 where
    l2: "for_each (colmap_point mp) m1 (Points3D rc) = Inr m2"
    by (auto simp: ReadFromCOLMAP_def split: sum.splits)
  have mp: "mp = emplace_all Map.empty (map (\<lambda>i. (RegImageIds rc ! i, i)) [0..<length (RegImageIds rc)])"
    using colmap_images_loop [OF l1] by simp
  have "dom mp \<subseteq> set (RegImageIds rc)"
    unfolding mp emplace_all_map_of by (auto simp: dom_map_of_conv_image_fst)
  then have none: "mp (image_id el) = None" using assms(4) by auto
  have "\<exists>e. for_each (colmap_point mp) m1 (Points3D rc) = Inl e"
  proof (rule for_each_fails [where v = p and I = "\<lambda>t. True"])
    show "p \<in> set (Points3D rc)" by (rule assms(2))
    show True ..
    show "\<And>t. True \<Longrightarrow> \<exists>e. colmap_point mp t p = Inl e"
      using colmap_point_fails [of el p mp] assms(3) none by simp
  qed simp
  then show ?thesis using l2 by simp
qed

section \<open>Properties of the legacy reader\<close>

text \<open>
  Claim C5, as amended. When the legacy reader returns, the rotation it stores for the
  \<open>i\<close>-th image of the bundle is the rotation read from the file with its second and
  third rows negated, which are the rows 1 and 2 counted from 0, and the translation it
  stores is the translation read with its second and third components negated, the
  components 1 and 2 counted from 0.
\<close>

theorem ReadFromPMVS_axis_flip:
  assumes "ReadFromPMVS env dir m = Inr m'"
    and "file_open env (JoinPaths [dir, ''bundle.rd.out'']) = Some file"
    and "i < nat (sint (num_images file))"
  shows "GetR (images m' ! (length (images m) + i)) =
           spec_negate_rows {1, 2} (map (rot_in (image_block file i)) [0..<9]) \<and>
         GetT (images m' ! (length (images m) + i)) =
           spec_negate_components {1, 2} (map (trans_in (image_block file i)) [0..<3])"
proof -
  from ReadFromPMVS_Inr [OF assms(1)] assms(2)
  have r: "map GetR (images m') = map GetR (images m) @ map (pmvs_R file) (pmvs_ids file)"
    and t: "map GetT (images m') = map GetT (images m) @ map (pmvs_T file) (pmvs_ids file)"
    by auto
  have len: "length (images m') = length (images m) + nat (sint (num_images file))"
    using arg_cong [OF r, of length] by (simp add: pmvs_ids_def)
  have "GetR (images m' ! (length (images m) + i)) = map GetR (images m') ! (length (images m) + i)"
    using len assms(3) by simp
  also have "\<dots> = pmvs_R file i"
    unfolding r using assms(3) by (simp add: nth_append pmvs_ids_def)
  finally have 1: "GetR (images m' ! (length (images m) + i)) = pmvs_R file i" .
  have "GetT (images m' ! (length (images m) + i)) = map GetT (images m') ! (length (images m) + i)"
    using len assms(3) by simp
  also have "\<dots> = pmvs_T file i"
    unfolding t using assms(3) by (simp add: nth_append pmvs_ids_def)
  finally have 2: "GetT (images m' ! (length (images m) + i)) = pmvs_T file i" .
  show ?thesis using 1 2 by (simp add: pmvs_R_spec pmvs_T_spec)
qed

text \<open>
  Claim C7. The legacy reader reads \<open>k1\<close> and \<open>k2\<close> for every image, and when either of
  them does not compare equal to zero for an image of the bundle the load fails: no model
  is returned.
\<close>

theorem ReadFromPMVS_distortion:
  assumes "file_open env (JoinPaths [dir, ''bundle.rd.out'']) = Some file"
    and "i < nat (sint (num_images file))"
    and "\<not> feq (k1 (image_block file i)) (Fin 0) \<or> \<not> feq (k2 (image_block file i)) (Fin 0)"
  shows "\<exists>e. ReadFromPMVS env dir m = Inl e"
proof (cases "ReadFromPMVS env dir m")
  case (Inl e)
  then show ?thesis by simp
next
  case (Inr m')
  from ReadFromPMVS_Inr [OF Inr] assms(1)
  have "\<forall>i\<in>set (pmvs_ids file).
         feq (k1 (image_block file i)) (Fin 0) \<and> feq (k2 (image_block file i)) (Fin 0)"
    by auto
  then show ?thesis using assms(2,3) by (auto simp: pmvs_ids_def)
qed


theorem ReadFromPMVS_axis_flip_witness:
  "ReadFromPMVS (pmvs_env (one_image_bundle identity_block)) ''scene'' empty_Model =
     Inr (projr (ReadFromPMVS (pmvs_env (one_image_bundle identity_block)) ''scene'' empty_Model)) \<and>
   file_open (pmvs_env (one_image_bundle identity_block)) (JoinPaths [''scene'', ''bundle.rd.out'']) =
     Some (one_image_bundle identity_block) \<and>
   0 < nat (sint (num_images (one_image_bundle identity_block))) \<and>
   GetR (images (projr (ReadFromPMVS (pmvs_env (one_image_bundle identity_block)) ''scene'' empty_Model)) ! 0) =
     [Fin 1, Fin 0, Fin 0, Fin 0, Fin (- 1), Fin 0, Fin 0, Fin 0, Fin (- 1)] \<and>
   GetT (images (projr (ReadFromPMVS (pmvs_env (one_image_bundle identity_block)) ''scene'' empty_Model)) ! 0) =
     [Fin 1, Fin (- 2), Fin (- 3)]"
proof -
  let ?r = "ReadFromPMVS (pmvs_env (one_image_bundle identity_block)) ''scene'' empty_Model"
  have "\<not> isl ?r" by code_simp
  then have h1: "?r = Inr (projr ?r)" by simp
  have h2: "file_open (pmvs_env (one_image_bundle identity_block))
              (JoinPaths [''scene'', ''bundle.rd.out'']) = Some (one_image_bundle identity_block)"
    by (simp add: pmvs_env_def)
  have h3: "0 < nat (sint (num_images (one_image_bundle identity_block)))"
    by (simp add: one_image_bundle_def)
  have e0: "images empty_Model = []" by (simp add: empty_Model_def)
  have r: "spec_negate_rows {1, 2} (map (rot_in (image_block (one_image_bundle identity_block) 0)) [0..<9]) =
           [Fin 1, Fin 0, Fin 0, Fin 0, Fin (- 1), Fin 0, Fin 0, Fin 0, Fin (- 1)]"
    by code_simp
  have t: "spec_negate_components {1, 2} (map (trans_in (image_block (one_image_bundle identity_block) 0)) [0..<3]) =
           [Fin 1, Fin (- 2), Fin (- 3)]"
    by code_simp
  have e1: "length (images empty_Model) + 0 = 0" by (simp add: e0)
  note c = ReadFromPMVS_axis_flip [OF h1 h2 h3, unfolded r t e1]
  show ?thesis using c h1 h2 h3 by blast
qed

text \<open>
  Claim C5 as stated reads "rows 2 and 3 (0-indexed)" and "components 2 and 3". Counted
  from 0 a 3x3 matrix has the rows 0, 1 and 2, so this negates the last row only and leaves
  row 1 as it was read; the reader negates row 1 too. For the identity rotation and the
  translation \<open>(1, 2, 3)\<close>:
\<close>

theorem ReadFromPMVS_rows_2_3_counterexample:
  "\<not> isl (ReadFromPMVS (pmvs_env (one_image_bundle identity_block)) ''scene'' empty_Model) \<and>
   GetR (images (projr (ReadFromPMVS (pmvs_env (one_image_bundle identity_block)) ''scene'' empty_Model)) ! 0) =
     [Fin 1, Fin 0, Fin 0, Fin 0, Fin (- 1), Fin 0, Fin 0, Fin 0, Fin (- 1)] \<and>
   spec_negate_rows {2, 3} (map (rot_in identity_block) [0..<9]) =
     [Fin 1, Fin 0, Fin 0, Fin 0, Fin 1, Fin 0, Fin 0, Fin 0, Fin (- 1)] \<and>
   GetR (images (projr (ReadFromPMVS (pmvs_env (one_image_bundle identity_block)) ''scene'' empty_Model)) ! 0) \<noteq>
     spec_negate_rows {2, 3} (map (rot_in identity_block) [0..<9]) \<and>
   GetT (images (projr (ReadFromPMVS (pmvs_env (one_image_bundle identity_block)) ''scene'' empty_Model)) ! 0) =
     [Fin 1, Fin (- 2), Fin (- 3)] \<and>
   spec_negate_components {2, 3} (map (trans_in identity_block) [0..<3]) = [Fin 1, Fin 2, Fin (- 3)]"
  by code_simp

theorem ReadFromPMVS_distortion_witness:
  "file_open (pmvs_env (one_image_bundle distorted_block)) (JoinPaths [''scene'', ''bundle.rd.out'']) =
     Some (one_image_bundle distorted_block) \<and>
   0 < nat (sint (num_images (one_image_bundle distorted_block))) \<and>
   \<not> feq (k1 (image_block (one_image_bundle distorted_block) 0)) (Fin 0) \<and>
   ReadFromPMVS (pmvs_env (one_image_bundle distorted_block)) ''scene'' empty_Model = Inl CheckFailed"
proof -
  have h1: "file_open (pmvs_env (one_image_bundle distorted_block))
              (JoinPaths [''scene'', ''bundle.rd.out'']) = Some (one_image_bundle distorted_block)"
    by (simp add: pmvs_env_def)
  have h2: "0 < nat (sint (num_images (one_image_bundle distorted_block)))"
    by (simp add: one_image_bundle_def)
  have h3: "\<not> feq (k1 (image_block (one_image_bundle distorted_block) 0)) (Fin 0)"
    by (simp add: one_image_bundle_def distorted_block_def identity_block_def)
  have "isl (ReadFromPMVS (pmvs_env (one_image_bundle distorted_block)) ''scene'' empty_Model)"
    and "projl (ReadFromPMVS (pmvs_env (one_image_bundle distorted_block)) ''scene'' empty_Model) =
         CheckFailed"
    by code_simp+
  then have v: "ReadFromPMVS (pmvs_env (one_image_bundle distorted_block)) ''scene'' empty_Model =
      Inl CheckFailed"
    by (metis sum.collapse(1))
  from ReadFromPMVS_distortion [OF h1 h2 disjI1 [OF h3], where m = empty_Model]
  show ?thesis using h1 h2 h3 v by simp
qed

section \<open>Track entries outside the frames\<close>

text \<open>
  Claim C6. In the legacy reader, a track entry of a point of the bundle whose image index
  is negative or not below the number of images makes the load fail. In the canonical
  reader, a track element of a 3D point whose upstream image id is not a registered image
  makes the load fail. A failed load is a value \<open>Inl e\<close>: it carries no model, so no entry
  is dropped or clamped and nothing partial is returned.
\<close>

theorem track_index_checked:
  "(file_open env (JoinPaths [dir, ''bundle.rd.out'']) = Some bundle \<and>
    pid < nat (sint (num_points bundle)) \<and>
    i < nat (sint (track_len (point_block bundle pid))) \<and>
    \<not> (0 \<le> sint (image_idx (track_el (point_block bundle pid) i)) \<and>
       sint (image_idx (track_el (point_block bundle pid) i)) < sint (num_images bundle))
    \<longrightarrow> (\<exists>e. ReadFromPMVS env dir empty_Model = Inl e)) \<and>
   (reconstruction_Read env (JoinPaths [dir, ''sparse'']) = Inr rc \<and>
    p \<in> set (Points3D rc) \<and> el \<in> set (Elements (snd p)) \<and>
    image_id el \<notin> set (RegImageIds rc)
    \<longrightarrow> (\<exists>e. ReadFromCOLMAP env dir m = Inl e))"
proof (intro conjI impI)
  assume h: "file_open env (JoinPaths [dir, ''bundle.rd.out'']) = Some bundle \<and>
    pid < nat (sint (num_points bundle)) \<and>
    i < nat (sint (track_len (point_block bundle pid))) \<and>
    \<not> (0 \<le> sint (image_idx (track_el (point_block bundle pid) i)) \<and>
       sint (image_idx (track_el (point_block bundle pid) i)) < sint (num_images bundle))"
  have "sint (num_images bundle) < 2 ^ 31" using sint_lt [of "num_images bundle"] by simp
  then have "nat (sint (num_images bundle)) \<le> 2 ^ 63" by (simp add: nat_le_iff)
  from size_of_int_less [OF this, of "image_idx (track_el (point_block bundle pid) i)"] h
  have "\<not> size_of_int (image_idx (track_el (point_block bundle pid) i)) <
          length (images empty_Model) + nat (sint (num_images bundle))"
    by (auto simp: empty_Model_def)
  with h show "\<exists>e. ReadFromPMVS env dir empty_Model = Inl e"
    by (intro ReadFromPMVS_bad_track [where pid = pid and i = i]) simp_all
next
  assume "reconstruction_Read env (JoinPaths [dir, ''sparse'']) = Inr rc \<and>
    p \<in> set (Points3D rc) \<and> el \<in> set (Elements (snd p)) \<and>
    image_id el \<notin> set (RegImageIds rc)"
  then have "reconstruction_Read env (JoinPaths [dir, ''sparse'']) = Inr rc"
    "p \<in> set (Points3D rc)" "el \<in> set (Elements (snd p))" "image_id el \<notin> set (RegImageIds rc)"
    by simp_all
  then show "\<exists>e. ReadFromCOLMAP env dir m = Inl e"
    by (rule ReadFromCOLMAP_bad_track)
qed

lemma isl_projl: "isl r \<Longrightarrow> projl r = e \<Longrightarrow> r = Inl e"
  by (cases r) simp_all

text \<open>
  The indices -1 and 1 with one image fail and the index 0 loads; the upstream id 7 with the
  registered ids 5 and 9 fails and the id 9 loads.
\<close>

theorem track_index_checked_witness:
  "isl (ReadFromPMVS (pmvs_env (one_point_bundle (- 1))) ''scene'' empty_Model) \<and>
   ReadFromPMVS (pmvs_env (one_point_bundle 1)) ''scene'' empty_Model = Inl CheckFailed \<and>
   \<not> isl (ReadFromPMVS (pmvs_env (one_point_bundle 0)) ''scene'' empty_Model) \<and>
   ReadFromCOLMAP (colmap_env (pair_reconstruction 7)) ''scene'' empty_Model = Inl OutOfRange \<and>
   \<not> isl (ReadFromCOLMAP (colmap_env (pair_reconstruction 9)) ''scene'' empty_Model)"
proof -
  have a: "file_open (pmvs_env (one_point_bundle (- 1))) (JoinPaths [''scene'', ''bundle.rd.out'']) =
        Some (one_point_bundle (- 1)) \<and>
      0 < nat (sint (num_points (one_point_bundle (- 1)))) \<and>
      0 < nat (sint (track_len (point_block (one_point_bundle (- 1)) 0))) \<and>
      \<not> (0 \<le> sint (image_idx (track_el (point_block (one_point_bundle (- 1)) 0) 0)) \<and>
         sint (image_idx (track_el (point_block (one_point_bundle (- 1)) 0) 0))
           < sint (num_images (one_point_bundle (- 1))))"
    by (simp add: pmvs_env_def one_point_bundle_def track_point_def)
  have b: "reconstruction_Read (colmap_env (pair_reconstruction 7)) (JoinPaths [''scene'', ''sparse'']) =
        Inr (pair_reconstruction 7) \<and>
      (1, \<lparr>X = Fin 0, Y = Fin 0, Z = Fin 1, Elements = [\<lparr>image_id = 7, point2D_idx = 0\<rparr>]\<rparr>)
        \<in> set (Points3D (pair_reconstruction 7)) \<and>
      \<lparr>image_id = 7, point2D_idx = 0\<rparr> \<in> set (Elements (snd
        (1 :: point3D_t, \<lparr>X = Fin 0, Y = Fin 0, Z = Fin 1, Elements = [\<lparr>image_id = 7, point2D_idx = 0\<rparr>]\<rparr>))) \<and>
      image_id \<lparr>image_id = 7, point2D_idx = 0 :: 32 word\<rparr> \<notin> set (RegImageIds (pair_reconstruction 7))"
    by (simp add: colmap_env_def pair_reconstruction_def)
  note t1 = track_index_checked [of "pmvs_env (one_point_bundle (- 1))" "''scene''"
      "one_point_bundle (- 1)" 0 0, THEN conjunct1, rule_format, OF a]
  note t2 = track_index_checked [of "colmap_env (pair_reconstruction 7)" "''scene''" _ _ _
      "pair_reconstruction 7" _ _ empty_Model, THEN conjunct2, rule_format, OF b]
  from t1 obtain e1 where
    e1: "ReadFromPMVS (pmvs_env (one_point_bundle (- 1))) ''scene'' empty_Model = Inl e1" ..
  from t2 obtain e2 where
    e2: "ReadFromCOLMAP (colmap_env (pair_reconstruction 7)) ''scene'' empty_Model = Inl e2" ..
  have 4: "projl (ReadFromCOLMAP (colmap_env (pair_reconstruction 7)) ''scene'' empty_Model) = OutOfRange"
    by code_simp
  have 5: "isl (ReadFromPMVS (pmvs_env (one_point_bundle 1)) ''scene'' empty_Model)"
    "projl (ReadFromPMVS (pmvs_env (one_point_bundle 1)) ''scene'' empty_Model) = CheckFailed"
    "\<not> isl (ReadFromPMVS (pmvs_env (one_point_bundle 0)) ''scene'' empty_Model)"
    "\<not> isl (ReadFromCOLMAP (colmap_env (pair_reconstruction 9)) ''scene'' empty_Model)"
    by code_simp+
  have c1: "isl (ReadFromPMVS (pmvs_env (one_point_bundle (- 1))) ''scene'' empty_Model)"
    using e1 by simp
  have c2: "ReadFromCOLMAP (colmap_env (pair_reconstruction 7)) ''scene'' empty_Model = Inl OutOfRange"
    using e2 4 by simp
  have c3: "ReadFromPMVS (pmvs_env (one_point_bundle 1)) ''scene'' empty_Model = Inl CheckFailed"
    using 5(1,2) by (rule isl_projl)
  show ?thesis
    apply (intro conjI)
        apply (rule c1)
       apply (rule c3)
      apply (rule 5(3))
     apply (rule c2)
    apply (rule 5(4))
    done
qed

section \<open>Names and indices\<close>

lemma decimal_value_snoc:
  "decimal_value (s @ [c]) = 10 * decimal_value s + (of_char c - 48)"
  by (simp add: decimal_value_def)

lemma decimal_value_digits10: "decimal_value (digits10 n) = n"
proof (induction n rule: digits10.induct)
  case (1 n)
  show ?case
  proof (cases "n < 10")
    case True
    then show ?thesis
      by (subst digits10.simps) (simp add: decimal_value_def)
  next
    case False
    have "decimal_value (digits10 n) =
          10 * decimal_value (digits10 (n div 10)) + (of_char (char_of (48 + n mod 10) :: char) - 48)"
      using False by (subst digits10.simps) (simp add: decimal_value_snoc)
    also have "(of_char (char_of (48 + n mod 10) :: char) :: nat) = 48 + n mod 10"
      by (simp add: mod_less)
    finally show ?thesis using 1 [OF False] by simp
  qed
qed

lemma decimal_value_zeros: "foldl (\<lambda>a c. 10 * a + (of_char c - 48)) 0 (replicate k (CHR ''0'')) = (0::nat)"
  by (induction k) simp_all

lemma decimal_value_pad0: "decimal_value (pad0 w s) = decimal_value s"
  by (simp add: decimal_value_def pad0_def decimal_value_zeros)

lemma sint_of_nat_small:
  assumes "i < 2 ^ 31"
  shows "sint (of_nat i :: cint) = int i"
proof -
  have "sint (of_nat i :: cint) = signed_take_bit 31 (int i)"
    using signed_of_nat [where 'b = 32 and 'a = int, of i] by simp
  also have "\<dots> = int i"
    using assms by (intro signed_take_bit_int_eq_self) simp_all
  finally show ?thesis .
qed

lemma pmvs_name_eq:
  "i < 2 ^ 31 \<Longrightarrow> pmvs_name i = pad0 8 (digits10 i) @ ''.jpg''"
  by (simp add: pmvs_name_def StringPrintf_08d_jpg_def sint_of_nat_small)

lemma pmvs_name_inj:
  assumes "i < 2 ^ 31" "j < 2 ^ 31" "pmvs_name i = pmvs_name j"
  shows "i = j"
proof -
  have "pad0 8 (digits10 i) = pad0 8 (digits10 j)"
    using assms by (simp add: pmvs_name_eq)
  then have "decimal_value (pad0 8 (digits10 i)) = decimal_value (pad0 8 (digits10 j))"
    by simp
  then show ?thesis by (simp add: decimal_value_pad0 decimal_value_digits10)
qed


lemma map_of_indexed:
  "distinct (map f xs) \<Longrightarrow> k \<in> set xs \<Longrightarrow> map_of (map (\<lambda>i. (f i, g i)) xs) (f k) = Some (g k)"
proof (induction xs)
  case Nil
  then show ?case by simp
next
  case (Cons a xs)
  show ?case
  proof (cases "k = a")
    case True
    then show ?thesis by simp
  next
    case False
    then have kin: "k \<in> set xs" using Cons.prems(2) by simp
    have "f a \<notin> f ` set xs" using Cons.prems(1) by simp
    then have "f k \<noteq> f a" using kin by (metis imageI)
    then show ?thesis using Cons.IH kin Cons.prems(1) by simp
  qed
qed

lemma size_of_int_nonneg: "0 \<le> sint a \<Longrightarrow> size_of_int a = nat (sint a)"
  by (simp add: size_of_int_eq)

lemma roundtrip_general:
  assumes names: "image_names m = map f [0..<n]"
    and tbl: "image_name_to_id m = map_of (map (\<lambda>i. (f i, of_nat i)) [0..<n])"
    and d: "distinct (map f [0..<n])"
    and iid: "0 \<le> sint iid" "nat (sint iid) < n"
  shows "GetImageName m iid = Inr (f (nat (sint iid))) \<and>
         GetImageId m (f (nat (sint iid))) = Inr iid"
proof -
  have 1: "GetImageName m iid = Inr (f (nat (sint iid)))"
    using iid by (simp add: GetImageName_def vec_at_def size_of_int_nonneg names)
  have "image_name_to_id m (f (nat (sint iid))) = Some (of_nat (nat (sint iid)))"
    unfolding tbl using d iid(2) by (intro map_of_indexed) simp_all
  moreover have "(of_nat (nat (sint iid)) :: cint) = iid"
    using iid(1) by simp
  ultimately have 2: "GetImageId m (f (nat (sint iid))) = Inr iid"
    by (simp add: GetImageId_def)
  show ?thesis using 1 2 by simp
qed

lemma pmvs_names_distinct: "distinct (map pmvs_name (pmvs_ids bf))"
proof -
  have "sint (num_images bf) < 2 ^ 31" using sint_lt [of "num_images bf"] by simp
  then have b: "i \<in> set (pmvs_ids bf) \<Longrightarrow> i < 2 ^ 31" for i
    by (auto simp: pmvs_ids_def)
  have "inj_on pmvs_name (set (pmvs_ids bf))"
    by (rule inj_onI) (use b pmvs_name_inj in blast)
  then show ?thesis by (simp add: distinct_map pmvs_ids_def)
qed

text \<open>
  Claim C4, as amended. For a model loaded into the empty model (the one load of a model's
  life) by the legacy reader, and for one so loaded by the canonical reader from a
  reconstruction whose registered images have pairwise distinct names: the frame names are
  pairwise distinct, there is one name per frame, and for every frame index \<open>iid\<close> from 0
  up to the number of frames \<open>GetImageName\<close> returns a name that \<open>GetImageId\<close> maps back
  to \<open>iid\<close>. The keys of the table are exactly the frame names, and the table maps the name
  at position \<open>i\<close> to \<open>i\<close> (converted to \<open>int\<close>, as \<open>emplace\<close> stores it). So, with at
  most \<open>2 ^ 31\<close> frames, every index \<open>GetImageId\<close> returns is a frame index whose name is the
  one looked up: the table is a bijection between the names and the indices. A legacy load
  always has fewer than \<open>2 ^ 31\<close> frames.
\<close>

theorem name_index_roundtrip:
  assumes "ReadFromPMVS env dir empty_Model = Inr m' \<or>
           (ReadFromCOLMAP env dir empty_Model = Inr m' \<and>
            reconstruction_Read env (JoinPaths [dir, ''sparse'']) = Inr rc \<and>
            distinct (map (reg_name rc) [0..<length (RegImageIds rc)]))"
  shows "distinct (image_names m') \<and> length (image_names m') = length (images m') \<and>
         (\<forall>iid. 0 \<le> sint iid \<and> nat (sint iid) < length (images m') \<longrightarrow>
            (\<exists>name. GetImageName m' iid = Inr name \<and> GetImageId m' name = Inr iid)) \<and>
         dom (image_name_to_id m') = set (image_names m') \<and>
         (\<forall>i. i < length (image_names m') \<longrightarrow>
            image_name_to_id m' (image_names m' ! i) = Some (of_nat i)) \<and>
         (length (images m') \<le> 2 ^ 31 \<longrightarrow>
            (\<forall>name iid. GetImageId m' name = Inr iid \<longrightarrow>
               0 \<le> sint iid \<and> nat (sint iid) < length (images m') \<and>
               GetImageName m' iid = Inr name)) \<and>
         (ReadFromPMVS env dir empty_Model = Inr m' \<longrightarrow> length (images m') < 2 ^ 31)"
proof -
  have "\<exists>f n. image_names m' = map f [0..<n] \<and>
          image_name_to_id m' = map_of (map (\<lambda>i. (f i, of_nat i)) [0..<n]) \<and>
          distinct (map f [0..<n]) \<and> length (images m') = n"
    using assms
  proof
    assume r: "ReadFromPMVS env dir empty_Model = Inr m'"
    from ReadFromPMVS_Inr [OF r] obtain bf where
      n: "image_names m' = image_names empty_Model @ map pmvs_name (pmvs_ids bf)"
      and t: "image_name_to_id m' = emplace_all (image_name_to_id empty_Model)
                (map (\<lambda>i. (pmvs_name i, of_nat i)) (pmvs_ids bf))"
      and g: "map GetR (images m') = map GetR (images empty_Model) @ map (pmvs_R bf) (pmvs_ids bf)"
      by blast
    have l: "length (images m') = nat (sint (num_images bf))"
      using arg_cong [OF g, of length] by (simp add: empty_Model_def pmvs_ids_def)
    have "image_names m' = map pmvs_name [0..<nat (sint (num_images bf))]"
      using n by (simp add: empty_Model_def pmvs_ids_def)
    moreover have "image_name_to_id m' =
        map_of (map (\<lambda>i. (pmvs_name i, of_nat i)) [0..<nat (sint (num_images bf))])"
      using t by (simp add: emplace_all_map_of empty_Model_def pmvs_ids_def)
    moreover have "distinct (map pmvs_name [0..<nat (sint (num_images bf))])"
      using pmvs_names_distinct [of bf] by (simp add: pmvs_ids_def)
    ultimately show ?thesis using l by blast
  next
    assume r: "ReadFromCOLMAP env dir empty_Model = Inr m' \<and>
            reconstruction_Read env (JoinPaths [dir, ''sparse'']) = Inr rc \<and>
            distinct (map (reg_name rc) [0..<length (RegImageIds rc)])"
    from ReadFromCOLMAP_Inr [of env dir empty_Model m'] r
    have n: "image_names m' = image_names empty_Model @ map (reg_name rc) [0..<length (RegImageIds rc)]"
      and t: "image_name_to_id m' = emplace_all (image_name_to_id empty_Model)
                (map (\<lambda>i. (reg_name rc i, of_nat i)) [0..<length (RegImageIds rc)])"
      and l: "length (images m') = length (images empty_Model) + length (RegImageIds rc)"
      by auto
    have "image_names m' = map (reg_name rc) [0..<length (RegImageIds rc)]"
      using n by (simp add: empty_Model_def)
    moreover have "image_name_to_id m' =
        map_of (map (\<lambda>i. (reg_name rc i, of_nat i)) [0..<length (RegImageIds rc)])"
      using t by (simp add: emplace_all_map_of empty_Model_def)
    moreover have "length (images m') = length (RegImageIds rc)"
      using l by (simp add: empty_Model_def)
    ultimately show ?thesis using r by blast
  qed
  then obtain f n where names: "image_names m' = map f [0..<n]"
    and tbl: "image_name_to_id m' = map_of (map (\<lambda>i. (f i, of_nat i)) [0..<n])"
    and d: "distinct (map f [0..<n])" and len: "length (images m') = n"
    by blast
  have 1: "distinct (image_names m')" using names d by simp
  have 2: "length (image_names m') = length (images m')" using names len by simp
  have 3: "\<exists>name. GetImageName m' iid = Inr name \<and> GetImageId m' name = Inr iid"
    if "0 \<le> sint iid \<and> nat (sint iid) < length (images m')" for iid
    using roundtrip_general [OF names tbl d, of iid] that len by blast
  have 4: "dom (image_name_to_id m') = set (image_names m')"
    unfolding tbl names by (simp add: dom_map_of_conv_image_fst image_image)
  have 5: "image_name_to_id m' (image_names m' ! i) = Some (of_nat i)"
    if "i < length (image_names m')" for i
  proof -
    have i: "i < n" using that names by simp
    have "map_of (map (\<lambda>i. (f i, (of_nat i :: cint))) [0..<n]) (f i) = Some (of_nat i)"
      using d i by (intro map_of_indexed) simp_all
    then show ?thesis using i by (simp add: tbl names)
  qed
  have 6: "0 \<le> sint iid \<and> nat (sint iid) < length (images m') \<and> GetImageName m' iid = Inr name"
    if b: "length (images m') \<le> 2 ^ 31" and g: "GetImageId m' name = Inr iid" for name iid
  proof -
    have t: "image_name_to_id m' name = Some iid"
      using g by (simp add: GetImageId_def split: option.splits)
    then have "name \<in> set (image_names m')" using 4 by blast
    then obtain i where i: "i < n" and ni: "name = f i"
      unfolding names by auto
    have "image_name_to_id m' name = Some (of_nat i)"
      using 5 [of i] i ni names by simp
    then have e: "iid = of_nat i" using t by simp
    have "i < 2 ^ 31" using i b len by simp
    then have s: "sint iid = int i" unfolding e by (rule sint_of_nat_small)
    have "GetImageName m' iid = Inr (f (nat (sint iid)))"
      using roundtrip_general [OF names tbl d, of iid] s i by simp
    then show ?thesis using s i ni len by simp
  qed
  have 7: "length (images m') < 2 ^ 31" if r: "ReadFromPMVS env dir empty_Model = Inr m'"
  proof -
    from ReadFromPMVS_Inr [OF r] obtain bf where
      g: "map GetR (images m') = map GetR (images empty_Model) @ map (pmvs_R bf) (pmvs_ids bf)"
      by blast
    have "length (images m') = nat (sint (num_images bf))"
      using arg_cong [OF g, of length] by (simp add: empty_Model_def pmvs_ids_def)
    moreover have "sint (num_images bf) < 2 ^ 31" using sint_lt [of "num_images bf"] by simp
    ultimately show ?thesis by simp
  qed
  show ?thesis
    apply (intro conjI allI impI)
          apply (rule 1)
         apply (rule 2)
        apply (erule 3)
       apply (rule 4)
      apply (erule 5)
     apply (erule (1) 6 [THEN conjunct1])
    apply (erule (1) 6 [THEN conjunct2, THEN conjunct1])
   apply (erule (1) 6 [THEN conjunct2, THEN conjunct2])
  apply (erule 7)
  done
qed

text \<open>
  Claim C4 as stated covers every loaded model. The canonical reader takes the names from
  the reconstruction and \<open>emplace\<close> keeps the first index of a name: with two registered
  images of the same name the load succeeds, the names are not unique and the name of frame
  1 maps back to frame 0.
\<close>

theorem name_index_roundtrip_counterexample:
  "\<not> isl (ReadFromCOLMAP (colmap_env twin_reconstruction) ''scene'' empty_Model) \<and>
   length (images (projr (ReadFromCOLMAP (colmap_env twin_reconstruction) ''scene'' empty_Model))) = 2 \<and>
   image_names (projr (ReadFromCOLMAP (colmap_env twin_reconstruction) ''scene'' empty_Model)) =
     [''a.jpg'', ''a.jpg''] \<and>
   GetImageName (projr (ReadFromCOLMAP (colmap_env twin_reconstruction) ''scene'' empty_Model)) 1 =
     Inr ''a.jpg'' \<and>
   GetImageId (projr (ReadFromCOLMAP (colmap_env twin_reconstruction) ''scene'' empty_Model)) ''a.jpg'' =
     Inr 0"
  by code_simp

text \<open>
  One instance per reader: the bundle with one image, and the reconstruction with the
  names \<open>a.jpg\<close> and \<open>b.jpg\<close>.
\<close>

theorem name_index_roundtrip_witness:
  "ReadFromPMVS (pmvs_env (one_image_bundle identity_block)) ''scene'' empty_Model =
     Inr (projr (ReadFromPMVS (pmvs_env (one_image_bundle identity_block)) ''scene'' empty_Model)) \<and>
   GetImageName (projr (ReadFromPMVS (pmvs_env (one_image_bundle identity_block)) ''scene'' empty_Model)) 0 =
     Inr ''00000000.jpg'' \<and>
   GetImageId (projr (ReadFromPMVS (pmvs_env (one_image_bundle identity_block)) ''scene'' empty_Model))
     ''00000000.jpg'' = Inr 0 \<and>
   ReadFromCOLMAP (colmap_env (pair_reconstruction 9)) ''scene'' empty_Model =
     Inr (projr (ReadFromCOLMAP (colmap_env (pair_reconstruction 9)) ''scene'' empty_Model)) \<and>
   distinct (map (reg_name (pair_reconstruction 9)) [0..<length (RegImageIds (pair_reconstruction 9))]) \<and>
   GetImageName (projr (ReadFromCOLMAP (colmap_env (pair_reconstruction 9)) ''scene'' empty_Model)) 1 =
     Inr ''b.jpg'' \<and>
   GetImageId (projr (ReadFromCOLMAP (colmap_env (pair_reconstruction 9)) ''scene'' empty_Model))
     ''b.jpg'' = Inr 1 \<and>
   dom (image_name_to_id
     (projr (ReadFromPMVS (pmvs_env (one_image_bundle identity_block)) ''scene'' empty_Model))) =
     {''00000000.jpg''} \<and>
   dom (image_name_to_id
     (projr (ReadFromCOLMAP (colmap_env (pair_reconstruction 9)) ''scene'' empty_Model))) =
     {''a.jpg'', ''b.jpg''}"
proof -
  let ?p = "ReadFromPMVS (pmvs_env (one_image_bundle identity_block)) ''scene'' empty_Model"
  let ?c = "ReadFromCOLMAP (colmap_env (pair_reconstruction 9)) ''scene'' empty_Model"
  have "\<not> isl ?p" by code_simp
  then have p: "?p = Inr (projr ?p)" by simp
  have "\<not> isl ?c" by code_simp
  then have c: "?c = Inr (projr ?c)" by simp
  have rd: "reconstruction_Read (colmap_env (pair_reconstruction 9)) (JoinPaths [''scene'', ''sparse'']) =
            Inr (pair_reconstruction 9)"
    by (simp add: colmap_env_def)
  have ds: "distinct (map (reg_name (pair_reconstruction 9))
              [0..<length (RegImageIds (pair_reconstruction 9))])"
    by code_simp
  have lp: "length (images (projr ?p)) = 1" by code_simp
  have lc: "length (images (projr ?c)) = 2" by code_simp
  have np: "GetImageName (projr ?p) 0 = Inr ''00000000.jpg''" by code_simp
  have nc: "GetImageName (projr ?c) 1 = Inr ''b.jpg''" by code_simp
  note tp = name_index_roundtrip [OF disjI1 [OF p], THEN conjunct2, THEN conjunct2, THEN conjunct1,
      rule_format, of 0]
  note tc = name_index_roundtrip [OF disjI2 [OF conjI [OF c conjI [OF rd ds]]],
      THEN conjunct2, THEN conjunct2, THEN conjunct1, rule_format, of 1]
  have ip: "GetImageId (projr ?p) ''00000000.jpg'' = Inr 0"
    using tp lp np by auto
  have ic: "GetImageId (projr ?c) ''b.jpg'' = Inr 1"
    using tc lc nc by auto
  have sp: "image_names (projr ?p) = [''00000000.jpg'']" by code_simp
  have sc: "image_names (projr ?c) = [''a.jpg'', ''b.jpg'']" by code_simp
  note dp = name_index_roundtrip [OF disjI1 [OF p], THEN conjunct2, THEN conjunct2, THEN conjunct2,
      THEN conjunct1]
  note dc = name_index_roundtrip [OF disjI2 [OF conjI [OF c conjI [OF rd ds]]],
      THEN conjunct2, THEN conjunct2, THEN conjunct2, THEN conjunct1]
  have kp: "dom (image_name_to_id (projr ?p)) = {''00000000.jpg''}"
    unfolding dp sp by simp
  have kc: "dom (image_name_to_id (projr ?c)) = {''a.jpg'', ''b.jpg''}"
    unfolding dc sc by simp
  show ?thesis
    apply (intro conjI)
            apply (rule p)
           apply (rule np)
          apply (rule ip)
         apply (rule c)
        apply (rule ds)
       apply (rule nc)
      apply (rule ic)
     apply (rule kp)
    apply (rule kc)
    done
qed
section \<open>Rounding to single precision\<close>

lemma powi_pos: "0 < (2::rat) powi k"
  by (simp add: power_int_def)

lemma powi_add1: "(2::rat) powi (k + 1) = 2 * 2 powi k"
  by (simp add: power_int_add)

lemma powi_add: "(2::rat) powi (a + b) = 2 powi a * 2 powi b"
  by (simp add: power_int_add)

lemma powi_mono: "a \<le> b \<Longrightarrow> (2::rat) powi a \<le> 2 powi b"
  by (rule power_int_increasing) simp_all

lemma powi_strict_mono: "a < b \<Longrightarrow> (2::rat) powi a < 2 powi b"
  by (rule power_int_strict_increasing) simp_all

lemma powi_less_cancel: "(2::rat) powi a < 2 powi b \<Longrightarrow> a < b"
  using powi_mono [of b a] by (cases "a < b") auto

lemma ilog2_bounds:
  assumes "0 < v"
  shows "2 powi (ilog2 v) \<le> v \<and> v < 2 powi (ilog2 v + 1)"
proof -
  obtain p q where pq: "quotient_of v = (p, q)" by (cases "quotient_of v")
  have q: "0 < q" using quotient_of_denom_pos [OF pq] .
  have v: "v = of_int p / of_int q" using quotient_of_div [OF pq] .
  have p: "0 < p" using assms q v by (simp add: zero_less_divide_iff)
  define d where "d = bitlen p - bitlen q"
  have bp: "2 ^ nat (bitlen p - 1) \<le> p" "p < 2 ^ nat (bitlen p)"
    using bitlen_bounds [OF p] by simp_all
  have bq: "2 ^ nat (bitlen q - 1) \<le> q" "q < 2 ^ nat (bitlen q)"
    using bitlen_bounds [OF q] by simp_all
  have lp: "1 \<le> bitlen p" using p bitlen_eq_zero_iff [of p] bitlen_nonneg [of p] by (cases "bitlen p = 0") auto
  have lq: "1 \<le> bitlen q" using q bitlen_eq_zero_iff [of q] bitlen_nonneg [of q] by (cases "bitlen q = 0") auto
  have rp: "(2::rat) powi (bitlen p - 1) \<le> of_int p" "of_int p < (2::rat) powi (bitlen p)"
  proof -
    have "(of_int (2 ^ nat (bitlen p - 1)) :: rat) \<le> of_int p" using bp(1) by (simp only: of_int_le_iff)
    then show "(2::rat) powi (bitlen p - 1) \<le> of_int p" using lp by (simp add: power_int_def)
    have "(of_int p :: rat) < of_int (2 ^ nat (bitlen p))" using bp(2) by (simp only: of_int_less_iff)
    then show "of_int p < (2::rat) powi (bitlen p)" using lp by (simp add: power_int_def)
  qed
  have rq: "(2::rat) powi (bitlen q - 1) \<le> of_int q" "of_int q < (2::rat) powi (bitlen q)"
  proof -
    have "(of_int (2 ^ nat (bitlen q - 1)) :: rat) \<le> of_int q" using bq(1) by (simp only: of_int_le_iff)
    then show "(2::rat) powi (bitlen q - 1) \<le> of_int q" using lq by (simp add: power_int_def)
    have "(of_int q :: rat) < of_int (2 ^ nat (bitlen q))" using bq(2) by (simp only: of_int_less_iff)
    then show "of_int q < (2::rat) powi (bitlen q)" using lq by (simp add: power_int_def)
  qed
  have qpos: "(0::rat) < of_int q" using q by simp
  \<comment> \<open>\<open>2^(d-1) < v < 2^(d+1)\<close>\<close>
  have lo: "2 powi (d - 1) < v"
  proof -
    have "2 powi (d - 1) * of_int q < (2::rat) powi (d - 1) * 2 powi (bitlen q)"
      using rq(2) powi_pos [of "d - 1"] by (simp add: mult_strict_left_mono)
    also have "\<dots> = 2 powi (bitlen p - 1)"
      using powi_add [of "d - 1" "bitlen q"] by (simp add: d_def)
    also have "\<dots> \<le> of_int p" by (rule rp(1))
    finally show ?thesis using qpos by (simp add: v pos_less_divide_eq)
  qed
  have hi: "v < 2 powi (d + 1)"
  proof -
    have "of_int p < (2::rat) powi (bitlen p)" by (rule rp(2))
    also have "\<dots> = 2 powi (d + 1) * 2 powi (bitlen q - 1)"
      using powi_add [of "d + 1" "bitlen q - 1"] by (simp add: d_def)
    also have "\<dots> \<le> 2 powi (d + 1) * of_int q"
      using rq(1) powi_pos [of "d + 1"] by (simp add: mult_left_mono)
    finally show ?thesis using qpos by (simp add: v pos_divide_less_eq)
  qed
  have il: "ilog2 v = (if 2 powi d \<le> v then d else d - 1)"
    by (simp add: ilog2_def pq d_def Let_def)
  show ?thesis
  proof (cases "2 powi d \<le> v")
    case True
    then show ?thesis using il hi by simp
  next
    case False
    then have "v < 2 powi d" by simp
    then show ?thesis using il lo False by simp
  qed
qed

lemma ilog2_unique:
  assumes "2 powi k \<le> v" "v < 2 powi (k + 1)"
  shows "ilog2 v = k"
proof -
  have v: "0 < v" using powi_pos [of k] assms(1) by (rule less_le_trans)
  note b = ilog2_bounds [OF v]
  have "2 powi k < (2::rat) powi (ilog2 v + 1)" using assms(1) b by simp
  then have 1: "k < ilog2 v + 1" by (rule powi_less_cancel)
  have "2 powi (ilog2 v) < (2::rat) powi (k + 1)" using assms(2) b by simp
  then have 2: "ilog2 v < k + 1" by (rule powi_less_cancel)
  show ?thesis using 1 2 by simp
qed

lemma ilog2_mono:
  assumes "0 < v" "v \<le> w"
  shows "ilog2 v \<le> ilog2 w"
proof -
  have w: "0 < w" using assms by simp
  have "2 powi (ilog2 v) \<le> v" using ilog2_bounds [OF assms(1)] by simp
  also have "v \<le> w" by (rule assms(2))
  also have "w < 2 powi (ilog2 w + 1)" using ilog2_bounds [OF w] by simp
  finally have "ilog2 v < ilog2 w + 1" by (rule powi_less_cancel)
  then show ?thesis by simp
qed



lemma rhe_floor: "\<lfloor>q\<rfloor> \<le> round_half_even q \<and> round_half_even q \<le> \<lfloor>q\<rfloor> + 1"
  by (simp add: round_half_even_def Let_def)

lemma rhe_upper: "of_int (round_half_even q) \<le> q + 1 / 2"
proof (cases "q - of_int \<lfloor>q\<rfloor> < 1 / 2")
  case True
  then have e: "round_half_even q = \<lfloor>q\<rfloor>" by (simp add: round_half_even_def Let_def)
  have "of_int \<lfloor>q\<rfloor> \<le> q" by (rule of_int_floor_le)
  then show ?thesis unfolding e by linarith
next
  case False
  have "round_half_even q \<le> \<lfloor>q\<rfloor> + 1" using rhe_floor by blast
  then have "(of_int (round_half_even q) :: rat) \<le> of_int (\<lfloor>q\<rfloor> + 1)" by (simp only: of_int_le_iff)
  then show ?thesis using False by simp
qed

lemma rhe_lower: "q - 1 / 2 \<le> of_int (round_half_even q)"
proof (cases "1 / 2 < q - of_int \<lfloor>q\<rfloor>")
  case True
  then have e: "round_half_even q = \<lfloor>q\<rfloor> + 1" by (simp add: round_half_even_def Let_def)
  have "q < of_int \<lfloor>q\<rfloor> + 1" by linarith
  then show ?thesis unfolding e by simp
next
  case False
  have "\<lfloor>q\<rfloor> \<le> round_half_even q" using rhe_floor by blast
  then have "(of_int \<lfloor>q\<rfloor> :: rat) \<le> of_int (round_half_even q)" by (simp only: of_int_le_iff)
  then show ?thesis using False by simp
qed

lemma rhe_ge: "of_int m - 1 / 2 < q \<Longrightarrow> m \<le> round_half_even q"
proof -
  assume "of_int m - 1 / 2 < q"
  then have "(of_int m :: rat) - 1 < of_int (round_half_even q)"
    using rhe_lower [of q] by linarith
  then have "(of_int (m - 1) :: rat) < of_int (round_half_even q)" by simp
  then have "m - 1 < round_half_even q" by (simp only: of_int_less_iff)
  then show ?thesis by simp
qed

lemma rhe_lt: "q < of_int m - 1 / 2 \<Longrightarrow> round_half_even q < m"
proof -
  assume "q < of_int m - 1 / 2"
  then have "(of_int (round_half_even q) :: rat) < of_int m"
    using rhe_upper [of q] by linarith
  then show ?thesis by (simp only: of_int_less_iff)
qed

lemma rhe_int [simp]: "round_half_even (of_int k) = k"
  by (simp add: round_half_even_def)

lemma rhe_mono:
  assumes "q \<le> q'"
  shows "round_half_even q \<le> round_half_even q'"
proof (cases "\<lfloor>q\<rfloor> < \<lfloor>q'\<rfloor>")
  case True
  have "round_half_even q \<le> \<lfloor>q\<rfloor> + 1" using rhe_floor by blast
  also have "\<dots> \<le> \<lfloor>q'\<rfloor>" using True by simp
  also have "\<dots> \<le> round_half_even q'" using rhe_floor by blast
  finally show ?thesis .
next
  case False
  then have f: "\<lfloor>q\<rfloor> = \<lfloor>q'\<rfloor>" using floor_mono [OF assms] by simp
  have "q - of_int \<lfloor>q\<rfloor> \<le> q' - of_int \<lfloor>q'\<rfloor>" using assms f by simp
  then show ?thesis
    unfolding round_half_even_def Let_def f by auto
qed

lemma ulp_pos: "0 < ulp v"
  by (simp add: ulp_def powi_pos)

lemma ulp_ge: "2 powi (- 149) \<le> ulp v"
  unfolding ulp_def by (rule powi_mono) simp

lemma rnd_val_err: "\<bar>rnd_val v - v\<bar> \<le> ulp v / 2"
proof -
  let ?q = "v / ulp v"
  have u: "0 < ulp v" by (rule ulp_pos)
  have "of_int (round_half_even ?q) - ?q \<le> 1 / 2" "- (of_int (round_half_even ?q) - ?q) \<le> 1 / 2"
    using rhe_upper [of ?q] rhe_lower [of ?q] by linarith+
  then have "\<bar>of_int (round_half_even ?q) - ?q\<bar> \<le> 1 / 2"
    by (rule abs_leI)
  then have "\<bar>of_int (round_half_even ?q) - ?q\<bar> * ulp v \<le> 1 / 2 * ulp v"
    using u by (intro mult_right_mono) simp_all
  moreover have "\<bar>of_int (round_half_even ?q) - ?q\<bar> * ulp v = \<bar>rnd_val v - v\<bar>"
  proof -
    have "\<bar>of_int (round_half_even ?q) - ?q\<bar> * ulp v =
          \<bar>(of_int (round_half_even ?q) - ?q) * ulp v\<bar>"
      using u by (simp add: abs_mult)
    also have "(of_int (round_half_even ?q) - ?q) * ulp v = rnd_val v - v"
      using u by (simp add: rnd_val_def algebra_simps)
    finally show ?thesis .
  qed
  ultimately show ?thesis by simp
qed

lemma rnd_val_nonneg: "0 \<le> v \<Longrightarrow> 0 \<le> rnd_val v"
proof -
  assume v: "0 \<le> v"
  have "0 \<le> v / ulp v" using v ulp_pos [of v] by simp
  then have "of_int 0 - 1 / 2 < v / ulp v" by simp
  then have "0 \<le> round_half_even (v / ulp v)" by (rule rhe_ge)
  then show ?thesis using ulp_pos [of v] by (simp add: rnd_val_def)
qed

lemma rnd_pos:
  assumes "0 < v"
  shows "rnd v = (if 2 ^ 128 \<le> rnd_val v then PInf else Fin (rnd_val v))"
  using assms rnd_val_nonneg [of v]
  by (simp add: rnd_def rnd_val_def Let_def)

lemma ulp_normal:
  assumes "2 powi (- 126) \<le> v"
  shows "ulp v = 2 powi (ilog2 v - 23)" "ulp v \<le> v * 2 powi (- 23)" "v * 2 powi (- 24) < ulp v"
proof -
  have v: "0 < v" using powi_pos [of "- 126"] assms by (rule less_le_trans)
  note b = ilog2_bounds [OF v]
  have "2 powi (- 126) < (2::rat) powi (ilog2 v + 1)" using assms b by simp
  then have "- 126 < ilog2 v + 1" by (rule powi_less_cancel)
  then have m: "max (ilog2 v) (- 126) = ilog2 v" by simp
  show 1: "ulp v = 2 powi (ilog2 v - 23)" using v m by (simp add: ulp_def)
  have "(2::rat) powi (ilog2 v - 23) = 2 powi (ilog2 v) * 2 powi (- 23)"
    using powi_add [of "ilog2 v" "- 23"] by simp
  also have "\<dots> \<le> v * 2 powi (- 23)"
    using b powi_pos [of "- 23"] by (intro mult_right_mono) simp_all
  finally show "ulp v \<le> v * 2 powi (- 23)" using 1 by simp
  have "v * 2 powi (- 24) < 2 powi (ilog2 v + 1) * 2 powi (- 24)"
    using b powi_pos [of "- 24"] by (intro mult_strict_right_mono) simp_all
  also have "\<dots> = (2::rat) powi (ilog2 v - 23)"
    using powi_add [of "ilog2 v + 1" "- 24"] by simp
  finally show "v * 2 powi (- 24) < ulp v" using 1 by simp
qed

lemma rnd_normal:
  assumes "2 powi (- 126) \<le> v" "v < 2 ^ 127"
  shows "\<exists>r. rnd v = Fin r \<and> v - v * 2 powi (- 24) \<le> r \<and> r \<le> v + v * 2 powi (- 24)"
proof -
  define c where "c = (2::rat) powi (- 24)"
  have c: "0 < c" "c \<le> 1" unfolding c_def by (simp_all add: power_int_minus_divide)
  have v: "0 < v" using powi_pos [of "- 126"] assms(1) by (rule less_le_trans)
  have p: "(2::rat) powi (- 23) = 2 * c" unfolding c_def using powi_add1 [of "- 24"] by simp
  have "ulp v \<le> v * (2 * c)" using ulp_normal(2) [OF assms(1)] by (simp only: p)
  moreover have "v * (2 * c) = 2 * (v * c)" by (rule mult.left_commute)
  ultimately have h: "ulp v / 2 \<le> v * c" by linarith
  have e: "\<bar>rnd_val v - v\<bar> \<le> v * c" using rnd_val_err [of v] h by linarith
  have lo: "v - v * c \<le> rnd_val v" using e by linarith
  have hi: "rnd_val v \<le> v + v * c" using e by linarith
  have "v * c \<le> v * 1" using v c by (intro mult_left_mono) simp_all
  then have "rnd_val v \<le> v + v" using hi by simp
  also have "\<dots> < 2 ^ 127 + 2 ^ 127" using assms(2) by (intro add_strict_mono) simp_all
  finally have "rnd_val v < 2 ^ 128" by simp
  then have "rnd v = Fin (rnd_val v)" using rnd_pos [OF v] by simp
  then show ?thesis using lo hi unfolding c_def by blast
qed

lemma rnd_floor:
  assumes v: "0 < v" "v < 2 ^ 127" and u: "ulp v = 2 powi (- int j)"
    and lo: "of_int K - ulp v / 2 < v" and hi: "v < of_int K + 1 - ulp v / 2"
  shows "\<exists>r. rnd v = Fin r \<and> \<lfloor>r\<rfloor> = K"
proof -
  have up: "0 < ulp v" by (rule ulp_pos)
  have inv: "1 / ulp v = 2 ^ j" unfolding u by (simp add: power_int_minus_divide)
  have u1: "ulp v \<le> 1" unfolding u using powi_mono [of "- int j" 0] by simp
  let ?q = "v / ulp v"
  have a: "of_int (K * 2 ^ j) - 1 / 2 < ?q"
  proof -
    have "(of_int K - ulp v / 2) / ulp v < ?q" using lo up by (simp add: divide_strict_right_mono)
    moreover have "(of_int K - ulp v / 2) / ulp v = of_int K * (1 / ulp v) - 1 / 2"
      using up by (simp add: diff_divide_distrib)
    ultimately show ?thesis by (simp add: inv)
  qed
  have b: "?q < of_int ((K + 1) * 2 ^ j) - 1 / 2"
  proof -
    have "?q < (of_int K + 1 - ulp v / 2) / ulp v" using hi up by (simp add: divide_strict_right_mono)
    moreover have "(of_int K + 1 - ulp v / 2) / ulp v = (of_int K + 1) * (1 / ulp v) - 1 / 2"
      using up by (simp add: diff_divide_distrib)
    ultimately show ?thesis by (simp add: inv)
  qed
  have ge: "K * 2 ^ j \<le> round_half_even ?q" using a by (rule rhe_ge)
  have lt: "round_half_even ?q < (K + 1) * 2 ^ j" using b by (rule rhe_lt)
  have ui: "(2::rat) ^ j * ulp v = 1" using inv up by (simp add: field_simps)
  have r1: "of_int K \<le> rnd_val v"
  proof -
    have "(of_int (K * 2 ^ j) :: rat) \<le> of_int (round_half_even ?q)" using ge by (simp only: of_int_le_iff)
    then have "of_int (K * 2 ^ j) * ulp v \<le> rnd_val v"
      unfolding rnd_val_def using up by (intro mult_right_mono) simp_all
    moreover have "of_int (K * 2 ^ j) * ulp v = of_int K"
    proof -
      have "of_int (K * 2 ^ j) * ulp v = of_int K * 2 ^ j * ulp v" by simp
      also have "\<dots> = of_int K * (2 ^ j * ulp v)" by (rule mult.assoc)
      finally show ?thesis unfolding ui by simp
    qed
    ultimately show ?thesis by (simp only:)
  qed
  have r2: "rnd_val v < of_int K + 1"
  proof -
    have "(of_int (round_half_even ?q) :: rat) < of_int ((K + 1) * 2 ^ j)" using lt by (simp only: of_int_less_iff)
    then have "rnd_val v < of_int ((K + 1) * 2 ^ j) * ulp v"
      unfolding rnd_val_def using up by (intro mult_strict_right_mono) simp_all
    moreover have "of_int ((K + 1) * 2 ^ j) * ulp v = of_int K + 1"
    proof -
      have "of_int ((K + 1) * 2 ^ j) * ulp v = (of_int K + 1) * 2 ^ j * ulp v" by simp
      also have "\<dots> = (of_int K + 1) * (2 ^ j * ulp v)" by (rule mult.assoc)
      finally show ?thesis unfolding ui by simp
    qed
    ultimately show ?thesis by (simp only:)
  qed
  have "of_int K < v + 1" using lo u1 up by linarith
  then have "rnd_val v < v + 2" using r2 by linarith
  also have "\<dots> < 2 ^ 127 + 2 ^ 127" using v(2) by (intro add_strict_mono) simp_all
  finally have "rnd_val v < 2 ^ 128" by simp
  then have "rnd v = Fin (rnd_val v)" using rnd_pos [OF v(1)] by simp
  moreover have "\<lfloor>rnd_val v\<rfloor> = K" using r1 r2 by (simp add: floor_unique)
  ultimately show ?thesis by blast
qed

lemma ulp_range:
  assumes "2 powi a \<le> v" "v < 2 powi b" "- 126 \<le> a" "b \<le> 24"
  shows "\<exists>j. ulp v = 2 powi (- int j) \<and> 24 \<le> int j + b"
proof -
  have v: "0 < v" using powi_pos [of a] assms(1) by (rule less_le_trans)
  note bd = ilog2_bounds [OF v]
  have "2 powi a < (2::rat) powi (ilog2 v + 1)" using assms(1) bd by simp
  then have 1: "a < ilog2 v + 1" by (rule powi_less_cancel)
  have "2 powi (ilog2 v) < (2::rat) powi b" using assms(2) bd by simp
  then have 2: "ilog2 v < b" by (rule powi_less_cancel)
  have "max (ilog2 v) (- 126) = ilog2 v" using 1 assms(3) by simp
  then have u: "ulp v = 2 powi (ilog2 v - 23)" using v by (simp add: ulp_def)
  have e: "ilog2 v - 23 = - int (nat (23 - ilog2 v))" using 2 assms(4) by linarith
  have "ulp v = 2 powi (- int (nat (23 - ilog2 v)))"
    using u arg_cong [OF e, of "\<lambda>k. (2::rat) powi k"] by (rule trans)
  moreover have "24 \<le> int (nat (23 - ilog2 v)) + b" using 2 assms(4) by linarith
  ultimately show ?thesis by blast
qed

lemma rnd_nat_exact:
  assumes "n < 2 ^ 24"
  shows "rnd (of_nat n) = Fin (of_nat n)"
proof (cases "n = 0")
  case True
  then show ?thesis by (simp add: rnd_def)
next
  case False
  let ?v = "of_nat n :: rat"
  have v: "0 < ?v" using False by simp
  have "2 powi 0 \<le> ?v" using False by simp
  moreover have "?v < 2 powi 24"
  proof -
    have "?v < of_nat (2 ^ 24)" using assms by (simp only: of_nat_less_iff)
    then show ?thesis by simp
  qed
  ultimately obtain j where j: "ulp ?v = 2 powi (- int j)"
    using ulp_range [of 0 ?v 24] by auto
  have inv: "1 / ulp ?v = 2 ^ j" unfolding j by (simp add: power_int_minus_divide)
  have "?v / ulp ?v = ?v * (1 / ulp ?v)" by simp
  also have "\<dots> = of_int (int n * 2 ^ j)" by (simp add: inv)
  finally have "round_half_even (?v / ulp ?v) = int n * 2 ^ j" by (simp only: rhe_int)
  then have "rnd_val ?v = of_int (int n * 2 ^ j) * ulp ?v" by (simp add: rnd_val_def)
  also have "\<dots> = ?v * 2 ^ j * ulp ?v" by simp
  also have "\<dots> = ?v * (2 ^ j * ulp ?v)" by (rule mult.assoc)
  also have "2 ^ j * ulp ?v = 1" using inv ulp_pos [of ?v] by (simp add: field_simps)
  finally have e: "rnd_val ?v = ?v" by simp
  have "?v < of_nat (2 ^ 24)" using assms by (simp only: of_nat_less_iff)
  then have "?v < 2 ^ 128" by simp
  then show ?thesis using rnd_pos [OF v] e by simp
qed

subsection \<open>The constants of \<open>ComputeDepthRanges\<close>\<close>

lemma kMinPercentile_val: "kMinPercentile = Fin (5368709 / 536870912)"
  unfolding kMinPercentile_def by code_simp

lemma kMaxPercentile_val: "kMaxPercentile = Fin (4152361 / 4194304)"
  unfolding kMaxPercentile_def by code_simp

lemma kStretchRatio_val: "kStretchRatio = Fin (1 / 4)"
  unfolding kStretchRatio_def by code_simp

lemma stretch_low: "fsub (Fin 1) kStretchRatio = Fin (3 / 4)"
  unfolding kStretchRatio_def fsub_def by code_simp

lemma stretch_high: "fadd (Fin 1) kStretchRatio = Fin (5 / 4)"
  unfolding kStretchRatio_def by code_simp

text \<open>The index never leaves the vector.\<close>

lemma percentile_index_bound:
  assumes n: "0 < n" "n < 2 ^ 64"
    and c: "1 / 128 \<le> c" "c \<le> 99 / 100 + 1 / 1000"
  shows "\<exists>i. percentile_index n (Fin c) = Some i \<and> i < n"
proof -
  define e where "e = (2::rat) powi (- 24)"
  have e: "0 < e" "e \<le> 1 / 1000" unfolding e_def by (simp_all add: power_int_minus_divide)
  let ?n = "of_nat n :: rat"
  have n1: "1 \<le> ?n" using n(1) by simp
  have "?n < of_nat (2 ^ 64)" using n(2) by (simp only: of_nat_less_iff)
  then have n2: "?n < 2 ^ 64" by simp
  have "2 powi (- 126) \<le> (1::rat)" by (simp add: power_int_minus_divide)
  then have "2 powi (- 126) \<le> ?n" using n1 by linarith
  moreover have "?n < 2 ^ 127" using n2 by simp
  ultimately obtain r1 where r1: "rnd ?n = Fin r1" "?n - ?n * e \<le> r1" "r1 \<le> ?n + ?n * e"
    using rnd_normal [of ?n] unfolding e_def by blast
  have ne: "?n * e \<le> ?n * (1 / 1000)" using e n1 by (intro mult_left_mono) simp_all
  have r1lo: "?n * (999 / 1000) \<le> r1" using r1(2) ne by simp
  have r1hi: "r1 \<le> ?n * (1001 / 1000)" using r1(3) ne by simp
  have "0 < ?n * (999 / 1000)" using n1 by simp
  then have r1pos: "0 < r1" using r1lo by linarith
  define p where "p = r1 * c"
  have plo: "1 / 256 \<le> p"
  proof -
    have "1 * (999 / 1000) * (1 / 128) \<le> ?n * (999 / 1000) * (1 / 128)" using n1 by simp
    also have "\<dots> \<le> r1 * (1 / 128)" using r1lo by simp
    also have "\<dots> \<le> r1 * c" using c(1) r1pos by (intro mult_left_mono) simp_all
    finally show ?thesis by (simp add: p_def)
  qed
  have phi: "p \<le> ?n * (1001 / 1000) * (991 / 1000)"
  proof -
    have "r1 * c \<le> r1 * (991 / 1000)" using c(2) r1pos by (intro mult_left_mono) simp_all
    also have "\<dots> \<le> ?n * (1001 / 1000) * (991 / 1000)" using r1hi by simp
    finally show ?thesis by (simp only: p_def)
  qed
  have "2 powi (- 126) \<le> (1 / 256 :: rat)" by (simp add: power_int_minus_divide)
  then have "2 powi (- 126) \<le> p" using plo by linarith
  moreover have "p < 2 ^ 127"
  proof -
    have "?n * (1001 / 1000) * (991 / 1000) \<le> ?n" using n1 by simp
    then show ?thesis using phi n2 by simp
  qed
  ultimately obtain r2 where r2: "rnd p = Fin r2" "p - p * e \<le> r2" "r2 \<le> p + p * e"
    using rnd_normal [of p] unfolding e_def by blast
  have ppos: "0 < p" using plo by simp
  have pe: "p * e \<le> p * (1 / 1000)" using e ppos by (intro mult_left_mono) simp_all
  have "0 \<le> p - p * e" using pe ppos by simp
  then have r2nn: "0 \<le> r2" using r2(2) by simp
  have "r2 \<le> p * (1001 / 1000)" using r2(3) pe by simp
  also have "\<dots> \<le> ?n * (1001 / 1000) * (991 / 1000) * (1001 / 1000)" using phi by simp
  also have "\<dots> < ?n" using n1 by simp
  finally have r2lt: "r2 < ?n" .
  have "\<lfloor>r2\<rfloor> < int n"
  proof -
    have "of_int \<lfloor>r2\<rfloor> \<le> r2" by (rule of_int_floor_le)
    then have "of_int \<lfloor>r2\<rfloor> < ?n" using r2lt by (rule le_less_trans)
    moreover have "?n = of_int (int n)" by simp
    ultimately have "(of_int \<lfloor>r2\<rfloor> :: rat) < of_int (int n)" by (simp only:)
    then show ?thesis by (simp only: of_int_less_iff)
  qed
  moreover have "0 \<le> \<lfloor>r2\<rfloor>" using r2nn by simp
  ultimately have i: "nat \<lfloor>r2\<rfloor> < n" by linarith
  have "r2 < 2 ^ 64" using r2lt n2 by simp
  then have "size_of_float (Fin r2) = Some (nat \<lfloor>r2\<rfloor>)" using r2nn by (simp add: size_of_float_def)
  then have "percentile_index n (Fin c) = Some (nat \<lfloor>r2\<rfloor>)"
    using r2(1) by (simp add: percentile_index_def float_of_size_def r1(1) p_def)
  then show ?thesis using i by blast
qed
section \<open>Depth ranges\<close>

lemma depth_track_el_Inr:
  assumes "depth_track_el m point ds iid = Inr ds'" "length ds = length (images m)"
  shows "length ds' = length ds \<and> size_of_int iid < length (images m) \<and>
         (\<forall>f<length ds. ds' ! f = ds ! f @ sample_of m f point iid)"
proof -
  have v: "size_of_int iid < length (images m)"
    using assms(1) by (auto simp: depth_track_el_def vec_at_def split: if_splits)
  then have img: "vec_at (images m) iid = Inr (images m ! size_of_int iid)"
    by (simp add: vec_at_def)
  show ?thesis
  proof (cases "fless (Fin 0) (point_depth (images m ! size_of_int iid) point)")
    case True
    then have "ds' = ds[size_of_int iid := ds ! size_of_int iid @
        [point_depth (images m ! size_of_int iid) point]]"
      using assms(1) img by (simp add: depth_track_el_def Let_def)
    then show ?thesis using v True assms(2)
      by (auto simp: sample_of_def nth_list_update)
  next
    case False
    then have "ds' = ds" using assms(1) img by (simp add: depth_track_el_def Let_def)
    then show ?thesis using v False by (auto simp: sample_of_def)
  qed
qed

lemma depth_track_el_ok:
  "size_of_int iid < length (images m) \<Longrightarrow> \<exists>ds'. depth_track_el m point ds iid = Inr ds'"
  by (simp add: depth_track_el_def vec_at_def Let_def)

lemma depth_track_loop_Inr:
  "for_each (depth_track_el m point) ds t = Inr ds' \<Longrightarrow> length ds = length (images m) \<Longrightarrow>
   length ds' = length ds \<and>
   (\<forall>f<length ds. ds' ! f = ds ! f @ concat (map (sample_of m f point) t))"
proof (induction t arbitrary: ds)
  case Nil
  then show ?case by simp
next
  case (Cons iid t)
  from Cons.prems(1) obtain ds1 where
    s1: "depth_track_el m point ds iid = Inr ds1" and r: "for_each (depth_track_el m point) ds1 t = Inr ds'"
    by (auto split: sum.splits)
  note a1 = depth_track_el_Inr [OF s1 Cons.prems(2)]
  have l1: "length ds1 = length (images m)" using a1 Cons.prems(2) by simp
  note ih = Cons.IH [OF r l1]
  show ?case using a1 ih by simp
qed

lemma depth_track_loop_ok:
  "\<forall>iid\<in>set t. size_of_int iid < length (images m) \<Longrightarrow> length ds = length (images m) \<Longrightarrow>
   \<exists>ds'. for_each (depth_track_el m point) ds t = Inr ds'"
proof (induction t arbitrary: ds)
  case Nil
  then show ?case by simp
next
  case (Cons iid t)
  have "size_of_int iid < length (images m)" using Cons.prems(1) by simp
  from depth_track_el_ok [OF this] obtain ds1 where
    s1: "depth_track_el m point ds iid = Inr ds1" by blast
  have l1: "length ds1 = length (images m)"
    using depth_track_el_Inr [OF s1 Cons.prems(2)] Cons.prems(2) by simp
  have "\<exists>ds'. for_each (depth_track_el m point) ds1 t = Inr ds'"
    using Cons.IH [OF _ l1] Cons.prems(1) by simp
  then show ?case using s1 by simp
qed

lemma depth_points_loop_Inr:
  "for_each (depth_point m) ds ps = Inr ds' \<Longrightarrow> length ds = length (images m) \<Longrightarrow>
   length ds' = length ds \<and>
   (\<forall>f<length ds. ds' ! f =
      ds ! f @ concat (map (\<lambda>point. concat (map (sample_of m f point) (track point))) ps))"
proof (induction ps arbitrary: ds)
  case Nil
  then show ?case by simp
next
  case (Cons p ps)
  from Cons.prems(1) obtain ds1 where
    s1: "depth_point m ds p = Inr ds1" and r: "for_each (depth_point m) ds1 ps = Inr ds'"
    by (auto split: sum.splits)
  note a1 = depth_track_loop_Inr [OF s1 [unfolded depth_point_def] Cons.prems(2)]
  have l1: "length ds1 = length (images m)" using a1 Cons.prems(2) by simp
  note ih = Cons.IH [OF r l1]
  show ?case using a1 ih by simp
qed

lemma depth_points_loop_ok:
  "\<forall>point\<in>set ps. \<forall>iid\<in>set (track point). size_of_int iid < length (images m) \<Longrightarrow>
   length ds = length (images m) \<Longrightarrow>
   \<exists>ds'. for_each (depth_point m) ds ps = Inr ds'"
proof (induction ps arbitrary: ds)
  case Nil
  then show ?case by simp
next
  case (Cons p ps)
  have "\<forall>iid\<in>set (track p). size_of_int iid < length (images m)" using Cons.prems(1) by simp
  from depth_track_loop_ok [OF this Cons.prems(2)] obtain ds1 where
    s1: "depth_point m ds p = Inr ds1" unfolding depth_point_def by blast
  have l1: "length ds1 = length (images m)"
    using depth_track_loop_Inr [OF s1 [unfolded depth_point_def] Cons.prems(2)] Cons.prems(2) by simp
  have "\<exists>ds'. for_each (depth_point m) ds1 ps = Inr ds'"
    using Cons.IH [OF _ l1] Cons.prems(1) by simp
  then show ?case using s1 by simp
qed

lemma collect_depths_Inr:
  assumes "collect_depths m = Inr ds"
  shows "length ds = length (images m) \<and> (\<forall>f<length (images m). ds ! f = frame_samples m f)"
  using depth_points_loop_Inr [OF assms [unfolded collect_depths_def]]
  by (simp add: frame_samples_def)

lemma collect_depths_ok: "valid_tracks m \<Longrightarrow> \<exists>ds. collect_depths m = Inr ds"
  unfolding collect_depths_def valid_tracks_def
  by (rule depth_points_loop_ok) simp_all

lemma map_err_Inr:
  "map_err f vs = Inr ws \<Longrightarrow>
   length ws = length vs \<and> (\<forall>i<length vs. f (vs ! i) = Inr (ws ! i))"
proof (induction vs arbitrary: ws)
  case Nil
  then show ?case by simp
next
  case (Cons v vs)
  from Cons.prems obtain w ws1 where
    w: "f v = Inr w" and r: "map_err f vs = Inr ws1" and e: "ws = w # ws1"
    by (auto split: sum.splits)
  show ?case using Cons.IH [OF r] w e by (auto simp: nth_Cons split: nat.splits)
qed

lemma map_err_ok:
  "\<forall>v\<in>set vs. \<exists>w. f v = Inr w \<Longrightarrow> \<exists>ws. map_err f vs = Inr ws"
  by (induction vs) auto

lemma length_insort_f32: "length (insort_f32 v ws) = Suc (length ws)"
  by (induction ws) simp_all

lemma length_sort_f32: "length (sort_f32 vs) = length vs"
  by (induction vs) (simp_all add: length_insort_f32)

lemma depth_range_Nil: "depth_range [] = Inr (Fin (- 1), Fin (- 1))"
  by (simp add: depth_range_def)

lemma depth_range_ok:
  assumes "length vs < 2 ^ 64"
  shows "\<exists>r. depth_range vs = Inr r"
proof (cases "vs = []")
  case True
  then show ?thesis by (simp add: depth_range_def)
next
  case False
  then have n: "0 < length vs" by simp
  from percentile_index_bound [OF n assms, of "5368709 / 536870912"]
  obtain i where i: "percentile_index (length vs) kMinPercentile = Some i" "i < length vs"
    by (auto simp: kMinPercentile_val)
  from percentile_index_bound [OF n assms, of "4152361 / 4194304"]
  obtain j where j: "percentile_index (length vs) kMaxPercentile = Some j" "j < length vs"
    by (auto simp: kMaxPercentile_val)
  show ?thesis using False i j by (simp add: depth_range_def Let_def length_sort_f32)
qed

text \<open>
  Claim C8. \<open>ComputeDepthRanges\<close> returns when every track entry is a frame index (and a
  sample list has a size that a \<open>size_t\<close> holds). What it returns has one pair per frame:
  the pair at position \<open>f\<close> is the range computed from the samples of the frame \<open>f\<close>, and it is
  the pair \<open>(-1, -1)\<close> when the frame has no sample.
\<close>

theorem ComputeDepthRanges_sentinel:
  "(valid_tracks m \<and> (\<forall>f<length (images m). length (frame_samples m f) < 2 ^ 64) \<longrightarrow>
      (\<exists>rs. ComputeDepthRanges m = Inr rs)) \<and>
   (\<forall>rs. ComputeDepthRanges m = Inr rs \<longrightarrow>
      length rs = length (images m) \<and>
      (\<forall>f<length (images m).
         depth_range (frame_samples m f) = Inr (rs ! f) \<and>
         (frame_samples m f = [] \<longrightarrow> rs ! f = (Fin (- 1), Fin (- 1)))))"
proof (intro conjI allI impI)
  assume h: "valid_tracks m \<and> (\<forall>f<length (images m). length (frame_samples m f) < 2 ^ 64)"
  from collect_depths_ok obtain ds where ds: "collect_depths m = Inr ds" using h by blast
  note c = collect_depths_Inr [OF ds]
  have "\<forall>v\<in>set ds. \<exists>r. depth_range v = Inr r"
  proof
    fix v assume "v \<in> set ds"
    then obtain f where "f < length ds" "v = ds ! f" by (auto simp: in_set_conv_nth)
    then have "length v < 2 ^ 64" using c h by simp
    then show "\<exists>r. depth_range v = Inr r" by (rule depth_range_ok)
  qed
  from map_err_ok [OF this] show "\<exists>rs. ComputeDepthRanges m = Inr rs"
    by (simp add: ComputeDepthRanges_def ds)
next
  fix rs assume r: "ComputeDepthRanges m = Inr rs"
  then obtain ds where ds: "collect_depths m = Inr ds" and me: "map_err depth_range ds = Inr rs"
    by (auto simp: ComputeDepthRanges_def split: sum.splits)
  note c = collect_depths_Inr [OF ds]
  note e = map_err_Inr [OF me]
  show "length rs = length (images m)" using c e by simp
  fix f assume f: "f < length (images m)"
  show dr: "depth_range (frame_samples m f) = Inr (rs ! f)" using c e f by auto
  assume "frame_samples m f = []"
  then show "rs ! f = (Fin (- 1), Fin (- 1))" using dr by (simp add: depth_range_Nil)
qed

text \<open>
  Two frames and one point at depth 2 in front of frame 0: frame 0 has the range
  \<open>(1.5, 2.5)\<close>, frame 1 has no sample.
\<close>

theorem ComputeDepthRanges_sentinel_witness:
  "\<exists>rs. ComputeDepthRanges depth_example = Inr rs \<and> length rs = 2 \<and>
     frame_samples depth_example 0 = [Fin 2] \<and> rs ! 0 = (Fin (3 / 2), Fin (5 / 2)) \<and>
     frame_samples depth_example 1 = [] \<and> rs ! 1 = (Fin (- 1), Fin (- 1))"
proof -
  note t = ComputeDepthRanges_sentinel [of depth_example]
  have len: "length (images depth_example) = 2"
    by (simp add: depth_example_def scene_def)
  have v: "valid_tracks depth_example" by code_simp
  have s0: "frame_samples depth_example 0 = [Fin 2]" by code_simp
  have s1: "frame_samples depth_example 1 = []" by code_simp
  have r0: "depth_range [Fin 2] = Inr (Fin (3 / 2), Fin (5 / 2))" by code_simp
  have "\<forall>f<length (images depth_example). length (frame_samples depth_example f) < 2 ^ 64"
    unfolding len using s0 s1 by (auto simp: less_2_cases_iff)
  with t v obtain rs where rs: "ComputeDepthRanges depth_example = Inr rs" by blast
  have l: "length rs = 2" using t rs len by simp
  have "depth_range (frame_samples depth_example 0) = Inr (rs ! 0)" using t rs len by simp
  then have e0: "rs ! 0 = (Fin (3 / 2), Fin (5 / 2))" using s0 r0 by simp
  have e1: "rs ! 1 = (Fin (- 1), Fin (- 1))" using t rs len s1 by simp
  show ?thesis using rs l s0 e0 s1 e1 by blast
qed

end
